theory Spec2Isabelle
  imports Main
begin

section \<open>Text primitives of the pipeline\<close>

text \<open>
  Text is a \<open>string\<close>. The characters that matter to the pipeline are the line feed, the
  tab (the field separator handed to \<open>read_csv\<close> and \<open>to_csv\<close>), the double quote (the
  quote character of the CSV dialect) and the carriage return.
\<close>

abbreviation nl :: char where "nl \<equiv> CHR 0x0A"
abbreviation tab :: char where "tab \<equiv> CHR 0x09"
abbreviation dquote :: char where "dquote \<equiv> CHR 0x22"
abbreviation space :: char where "space \<equiv> CHR 0x20"

text \<open>
  \<open>for line in f\<close> on a file opened in text mode: every line keeps its terminating line
  feed; a last line without terminator is yielded as it is.
\<close>

fun file_lines_from :: "string \<Rightarrow> string \<Rightarrow> string list" where
  "file_lines_from cur [] = (if cur = [] then [] else [cur])"
| "file_lines_from cur (c # cs) =
     (if c = nl then (cur @ [c]) # file_lines_from [] cs
      else file_lines_from (cur @ [c]) cs)"

definition file_lines :: "string \<Rightarrow> string list" where
  "file_lines s = file_lines_from [] s"

text \<open>\<open>str.startswith\<close>, \<open>str.strip(chars)\<close> and \<open>sep.join\<close>.\<close>

definition startswith :: "string \<Rightarrow> string \<Rightarrow> bool" where
  "startswith p s = (take (length p) s = p)"

definition strip :: "string \<Rightarrow> string \<Rightarrow> string" where
  "strip chars s =
     rev (dropWhile (\<lambda>c. c \<in> set chars) (rev (dropWhile (\<lambda>c. c \<in> set chars) s)))"

fun join :: "char \<Rightarrow> string list \<Rightarrow> string" where
  "join sep [] = []"
| "join sep [x] = x"
| "join sep (x # y # ys) = x @ sep # join sep (y # ys)"

text \<open>\<open>str(n)\<close> for a non-negative integer.\<close>

definition digit :: "nat \<Rightarrow> char" where
  "digit d = ''0123456789'' ! d"

fun str_nat :: "nat \<Rightarrow> string" where
  "str_nat n = (if n < 10 then [digit n] else str_nat (n div 10) @ [digit (n mod 10)])"

declare str_nat.simps [simp del]

section \<open>Data frames\<close>

text \<open>
  A pandas \<open>DataFrame\<close> as the pipeline uses it: an ordered list of column labels and the
  rows. A label is a string (a name read from a header row) or an integer position (what
  \<open>read_csv(header=None)\<close> assigns). The index is never written (\<open>index=False\<close>) and never
  read, so it is not part of the model. Cells are kept as the text of the field; the empty
  text stands for a missing value, which \<open>read_csv\<close> reads from an empty field and \<open>to_csv\<close>
  writes as one. The values pandas makes of these texts, column by column, are described
  apart (\<open>typed\<close>), for columns of integers and columns of text.
\<close>

datatype label = Name string | Pos nat

record dataframe =
  columns :: "label list"
  rows :: "string list list"

datatype header_arg = Infer | NoHeader

text \<open>
  The exceptions the pipeline can raise. \<open>ProbesFilesNotFound main_dir\<close> is the
  \<open>FileNotFoundError\<close> raised at line 144; its message names the expected files
  \<open>Probes.tsv\<close> and interpolates \<open>main_dir\<close>, which is kept as the argument. The plain
  \<open>FileNotFoundError\<close> is the one the operating system raises for a missing path.
\<close>

datatype error =
    EmptyDataError
  | ParserError
  | FileNotFoundError
  | IsADirectoryError
  | NotADirectoryError
  | FileExistsError
  | PermissionError
  | BadGzipFile
  | ProbesFilesNotFound "string list"

section \<open>\<open>pandas.read_csv(f, sep="\\t", header=...)\<close>\<close>


datatype tstate = Start_record | Whitespace_line | Start_field | In_field | In_quoted | Quote_in_quoted

definition end_line :: "string list \<Rightarrow> error + string list list \<Rightarrow> error + string list list" where
  "end_line r rest = (case rest of Inl e \<Rightarrow> Inl e | Inr rs \<Rightarrow> Inr (r # rs))"

fun tokenize :: "tstate \<Rightarrow> string \<Rightarrow> string list \<Rightarrow> string \<Rightarrow> error + string list list" where
  "tokenize st cur row [] =
     (case st of
        Start_record \<Rightarrow> Inr []
      | Whitespace_line \<Rightarrow> Inr []
      | In_quoted \<Rightarrow> Inl ParserError
      | _ \<Rightarrow> Inr [row @ [cur]])"
| "tokenize Start_record cur row (c # cs) =
     (if c = nl then tokenize Start_record [] [] cs
      else if c = space then tokenize Whitespace_line [c] [] cs
      else if c = dquote then tokenize In_quoted [] [] cs
      else if c = tab then tokenize Start_field [] [[]] cs
      else tokenize In_field [c] [] cs)"
| "tokenize Whitespace_line cur row (c # cs) =
     (if c = nl then tokenize Start_record [] [] cs
      else if c = space then tokenize Whitespace_line (cur @ [c]) row cs
      else if c = tab then tokenize Start_field [] (row @ [cur]) cs
      else tokenize In_field (cur @ [c]) row cs)"
| "tokenize Start_field cur row (c # cs) =
     (if c = nl then end_line (row @ [[]]) (tokenize Start_record [] [] cs)
      else if c = dquote then tokenize In_quoted [] row cs
      else if c = tab then tokenize Start_field [] (row @ [[]]) cs
      else tokenize In_field [c] row cs)"
| "tokenize In_field cur row (c # cs) =
     (if c = nl then end_line (row @ [cur]) (tokenize Start_record [] [] cs)
      else if c = tab then tokenize Start_field [] (row @ [cur]) cs
      else tokenize In_field (cur @ [c]) row cs)"
| "tokenize In_quoted cur row (c # cs) =
     (if c = dquote then tokenize Quote_in_quoted cur row cs
      else tokenize In_quoted (cur @ [c]) row cs)"
| "tokenize Quote_in_quoted cur row (c # cs) =
     (if c = nl then end_line (row @ [cur]) (tokenize Start_record [] [] cs)
      else if c = dquote then tokenize In_quoted (cur @ [c]) row cs
      else if c = tab then tokenize Start_field [] (row @ [cur]) cs
      else tokenize In_field (cur @ [c]) row cs)"

definition records :: "string \<Rightarrow> error + string list list" where
  "records s = tokenize Start_record [] [] s"

text \<open>
  Header names: an empty name at position \<open>i\<close> becomes \<open>Unnamed: i\<close>, and a name seen
  before gets the suffix \<open>.k\<close> (\<open>mangle_dupe_cols\<close>): the loop
  \<open>while cur_count > 0: counts[col] = cur_count + 1; col = f"{col}.{cur_count}";
  cur_count = counts[col]\<close> of pandas 1. pandas 2 also steps over a suffixed name that is
  already a name of the header (\<open>a, a.1, a\<close> is read as \<open>a, a.1, a.2\<close>, where this loop
  gives \<open>a, a.1, a.1.1\<close>). A header whose names are distinct is left as it is by both.
\<close>

fun count_of :: "(string \<times> nat) list \<Rightarrow> string \<Rightarrow> nat" where
  "count_of [] k = 0"
| "count_of ((k', n) # kvs) k = (if k' = k then n else count_of kvs k)"

fun set_count :: "(string \<times> nat) list \<Rightarrow> string \<Rightarrow> nat \<Rightarrow> (string \<times> nat) list" where
  "set_count [] k v = [(k, v)]"
| "set_count ((k', n) # kvs) k v =
     (if k' = k then (k, v) # kvs else (k', n) # set_count kvs k v)"

definition longer_keys :: "(string \<times> nat) list \<Rightarrow> string \<Rightarrow> nat" where
  "longer_keys counts col = length (filter (\<lambda>k. length col \<le> length k) (map fst counts))"

lemma count_of_pos_key: "0 < count_of counts col \<Longrightarrow> col \<in> set (map fst counts)"
  by (induction counts) (auto split: if_splits)

lemma set_count_keys:
  "col \<in> set (map fst counts) \<Longrightarrow> map fst (set_count counts col v) = map fst counts"
  by (induction counts) force+

lemma longer_keys_decreases:
  assumes "0 < count_of counts col"
  shows "longer_keys (set_count counts col v) (col @ CHR ''.'' # sfx) < longer_keys counts col"
proof -
  let ?ks = "map fst counts"
  let ?P = "\<lambda>k. length col \<le> length k"
  let ?Q = "\<lambda>k. length (col @ CHR ''.'' # sfx) \<le> length k"
  have key: "col \<in> set ?ks" using assms by (rule count_of_pos_key)
  have same: "map fst (set_count counts col v) = ?ks" using key by (rule set_count_keys)
  have "filter ?Q ?ks = filter ?Q (filter ?P ?ks)"
    by (rule sym, simp, rule filter_cong) auto
  moreover have "col \<in> set (filter ?P ?ks)" using key by simp
  moreover have "\<not> ?Q col" by simp
  ultimately have "length (filter ?Q ?ks) < length (filter ?P ?ks)"
    using length_filter_less [of col "filter ?P ?ks" ?Q] by simp
  then show ?thesis by (simp add: longer_keys_def same)
qed

function dedup_name :: "(string \<times> nat) list \<Rightarrow> string \<Rightarrow> string \<times> (string \<times> nat) list" where
  "dedup_name counts col =
     (let cur_count = count_of counts col in
      if 0 < cur_count
      then dedup_name (set_count counts col (cur_count + 1)) (col @ CHR ''.'' # str_nat cur_count)
      else (col, counts))"
  by pat_completeness auto
termination
  by (relation "measure (\<lambda>(counts, col). longer_keys counts col)")
     (auto intro: longer_keys_decreases)

declare dedup_name.simps [simp del]

fun dedup_names :: "(string \<times> nat) list \<Rightarrow> string list \<Rightarrow> string list" where
  "dedup_names counts [] = []"
| "dedup_names counts (col # cols) =
     (case dedup_name counts col of
        (col', counts') \<Rightarrow> col' # dedup_names (set_count counts' col' 1) cols)"

fun unnamed_from :: "nat \<Rightarrow> string list \<Rightarrow> string list" where
  "unnamed_from i [] = []"
| "unnamed_from i (c # cs) =
     (if c = [] then ''Unnamed: '' @ str_nat i else c) # unnamed_from (Suc i) cs"

definition header_names :: "string list \<Rightarrow> string list" where
  "header_names flds = dedup_names [] (unnamed_from 0 flds)"

text \<open>
  Rows: a record may have more fields than the header only if it is the first data record
  (the extra leading fields then become the index, which this pipeline never writes);
  any later record with more fields than the widest so far raises \<open>ParserError\<close>; a record
  with fewer fields is filled with missing values.
\<close>

definition pad :: "nat \<Rightarrow> string list \<Rightarrow> string list" where
  "pad n r = r @ replicate (n - length r) []"

definition read_csv :: "string \<Rightarrow> header_arg \<Rightarrow> error + dataframe" where
  "read_csv text header =
     (case records text of
        Inl e \<Rightarrow> Inl e
      | Inr [] \<Rightarrow> Inl EmptyDataError
      | Inr (first # rest) \<Rightarrow>
          (case header of
             NoHeader \<Rightarrow>
               (let w = length first in
                if list_all (\<lambda>r. length r \<le> w) rest
                then Inr \<lparr>columns = map Pos [0..<w], rows = map (pad w) (first # rest)\<rparr>
                else Inl ParserError)
           | Infer \<Rightarrow>
               (let h = length first;
                    w = (case rest of [] \<Rightarrow> h | d # _ \<Rightarrow> max h (length d)) in
                if list_all (\<lambda>r. length r \<le> w) rest
                then Inr \<lparr>columns = map Name (header_names first),
                          rows = map (\<lambda>r. drop (w - h) (pad w r)) rest\<rparr>
                else Inl ParserError)))"

section \<open>The sectioned-text parser: \<open>ExtractAndProcessFiles.process_text_file\<close>\<close>

text \<open>
  \<open>dfs\<close> is a Python dict: insertion-ordered, and a key stored again keeps its place and
  takes the new value.
\<close>

fun dict_set :: "('k \<times> 'v) list \<Rightarrow> 'k \<Rightarrow> 'v \<Rightarrow> ('k \<times> 'v) list" where
  "dict_set [] k v = [(k, v)]"
| "dict_set ((k', v') # kvs) k v =
     (if k' = k then (k, v) # kvs else (k', v') # dict_set kvs k v)"

record scan_state =
  dfs :: "(string \<times> dataframe) list"
  write_key :: "string option"
  fio :: string

text \<open>\<open>if write_key:\<close> is false for \<open>None\<close> and for the empty string.\<close>

fun truthy :: "string option \<Rightarrow> bool" where
  "truthy None = False"
| "truthy (Some s) = (s \<noteq> [])"

text \<open>One iteration of \<open>for line in f\<close> (lines 99 to 110).\<close>

definition scan_line :: "scan_state \<Rightarrow> string \<Rightarrow> error + scan_state" where
  "scan_line st line =
     (if startswith ''['' line then
        (case (if truthy (write_key st)
               then (case read_csv (fio st)
                            (if write_key st = Some ''Heading'' then NoHeader else Infer) of
                       Inl e \<Rightarrow> Inl e
                     | Inr df \<Rightarrow> Inr (dict_set (dfs st) (the (write_key st)) df))
               else Inr (dfs st)) of
           Inl e \<Rightarrow> Inl e
         | Inr d \<Rightarrow> Inr \<lparr>dfs = d, write_key = Some (strip [CHR ''['', CHR '']'', nl] line), fio = []\<rparr>)
      else if truthy (write_key st) then Inr (st\<lparr>fio := fio st @ line\<rparr>)
      else Inr st)"

fun scan_lines :: "scan_state \<Rightarrow> string list \<Rightarrow> error + scan_state" where
  "scan_lines st [] = Inr st"
| "scan_lines st (line # ls) =
     (case scan_line st line of Inl e \<Rightarrow> Inl e | Inr st' \<Rightarrow> scan_lines st' ls)"

text \<open>The flush of the last section after the loop (lines 113 to 115).\<close>

definition flush_last :: "scan_state \<Rightarrow> error + (string \<times> dataframe) list" where
  "flush_last st =
     (if truthy (write_key st)
      then (case read_csv (fio st) Infer of
              Inl e \<Rightarrow> Inl e
            | Inr df \<Rightarrow> Inr (dict_set (dfs st) (the (write_key st)) df))
      else Inr (dfs st))"

definition parse_sections :: "string \<Rightarrow> error + (string \<times> dataframe) list" where
  "parse_sections text =
     (case scan_lines \<lparr>dfs = [], write_key = None, fio = []\<rparr> (file_lines text) of
        Inl e \<Rightarrow> Inl e
      | Inr st \<Rightarrow> flush_last st)"

section \<open>\<open>DataFrame.to_csv(path, sep="\\t", index=False)\<close>\<close>

text \<open>
  The rows go through a \<open>csv.writer\<close> with minimal quoting: a field holding the delimiter,
  the quote character or a line feed is enclosed in quotes with its quotes doubled, and a
  row made of one empty field is written as two quotes. The header row is always written
  (\<open>header=True\<close> is the default): the labels, an integer position as its decimal text.
\<close>

definition needs_quotes :: "string \<Rightarrow> bool" where
  "needs_quotes s = (tab \<in> set s \<or> dquote \<in> set s \<or> nl \<in> set s)"

definition quote_field :: "string \<Rightarrow> string" where
  "quote_field s =
     (if needs_quotes s
      then dquote # concat (map (\<lambda>c. if c = dquote then [dquote, dquote] else [c]) s) @ [dquote]
      else s)"

definition writerow :: "string list \<Rightarrow> string" where
  "writerow r = (if r = [[]] then [dquote, dquote] else join tab (map quote_field r)) @ [nl]"

fun label_text :: "label \<Rightarrow> string" where
  "label_text (Name s) = s"
| "label_text (Pos n) = str_nat n"

definition to_csv :: "dataframe \<Rightarrow> string" where
  "to_csv df = concat (map writerow (map label_text (columns df) # rows df))"

section \<open>\<open>DataFrame.drop(columns=..., errors="ignore")\<close>\<close>

definition kept :: "string list \<Rightarrow> label \<Rightarrow> bool" where
  "kept names l = (case l of Name s \<Rightarrow> s \<notin> set names | Pos n \<Rightarrow> True)"

definition drop_columns :: "string list \<Rightarrow> dataframe \<Rightarrow> dataframe" where
  "drop_columns names df =
     \<lparr>columns = filter (kept names) (columns df),
      rows = map (\<lambda>r. map snd (filter (\<lambda>(l, v). kept names l) (zip (columns df) r))) (rows df)\<rparr>"

section \<open>The file system\<close>

text \<open>
  A directory tree: a file holds its content, a directory its entries in listing order.
  A path is the list of its components from the root of the tree.
\<close>

datatype node = File string | Dir "(string \<times> node) list"

type_synonym path = "string list"

fun lookup :: "node \<Rightarrow> path \<Rightarrow> node option" where
  "lookup n [] = Some n"
| "lookup (File c) (x # p) = None"
| "lookup (Dir es) (x # p) = (case map_of es x of None \<Rightarrow> None | Some ch \<Rightarrow> lookup ch p)"

definition path_exists :: "node \<Rightarrow> path \<Rightarrow> bool" where
  "path_exists fs p = (lookup fs p \<noteq> None)"

definition del_entry :: "(string \<times> node) list \<Rightarrow> string \<Rightarrow> (string \<times> node) list" where
  "del_entry es x = filter (\<lambda>(n, c). n \<noteq> x) es"

text \<open>
  \<open>modify p f fs\<close> replaces the entry at \<open>p\<close> by what \<open>f\<close> makes of it (\<open>None\<close>: no entry).
  The parent of \<open>p\<close> must be an existing directory.
\<close>

fun modify :: "path \<Rightarrow> (node option \<Rightarrow> error + node option) \<Rightarrow> node \<Rightarrow> error + node" where
  "modify [] f n =
     (case f (Some n) of
        Inl e \<Rightarrow> Inl e
      | Inr None \<Rightarrow> Inl PermissionError
      | Inr (Some n') \<Rightarrow> Inr n')"
| "modify (x # p) f (File c) = Inl NotADirectoryError"
| "modify [x] f (Dir es) =
     (case f (map_of es x) of
        Inl e \<Rightarrow> Inl e
      | Inr None \<Rightarrow> Inr (Dir (del_entry es x))
      | Inr (Some n') \<Rightarrow> Inr (Dir (dict_set es x n')))"
| "modify (x # y # p) f (Dir es) =
     (case map_of es x of
        None \<Rightarrow> Inl FileNotFoundError
      | Some ch \<Rightarrow>
          (case modify (y # p) f ch of
             Inl e \<Rightarrow> Inl e
           | Inr ch' \<Rightarrow> Inr (Dir (dict_set es x ch'))))"

text \<open>\<open>open(p, "w")\<close> followed by one write, \<open>open(p).read()\<close>, \<open>Path.unlink\<close>, \<open>os.makedirs(p, exist_ok=True)\<close>.\<close>

definition write_file :: "path \<Rightarrow> string \<Rightarrow> node \<Rightarrow> error + node" where
  "write_file p c fs =
     modify p (\<lambda>cur. case cur of Some (Dir es) \<Rightarrow> Inl IsADirectoryError
                                | _ \<Rightarrow> Inr (Some (File c))) fs"

definition read_file :: "node \<Rightarrow> path \<Rightarrow> error + string" where
  "read_file fs p =
     (case lookup fs p of
        None \<Rightarrow> Inl FileNotFoundError
      | Some (Dir es) \<Rightarrow> Inl IsADirectoryError
      | Some (File c) \<Rightarrow> Inr c)"

definition unlink :: "path \<Rightarrow> node \<Rightarrow> error + node" where
  "unlink p fs =
     modify p (\<lambda>cur. case cur of None \<Rightarrow> Inl FileNotFoundError
                                | Some (Dir es) \<Rightarrow> Inl IsADirectoryError
                                | Some (File c) \<Rightarrow> Inr None) fs"

fun makedirs :: "path \<Rightarrow> node \<Rightarrow> error + node" where
  "makedirs [] (Dir es) = Inr (Dir es)"
| "makedirs [] (File c) = Inl FileExistsError"
| "makedirs (x # p) (File c) = Inl NotADirectoryError"
| "makedirs (x # p) (Dir es) =
     (case makedirs p (case map_of es x of None \<Rightarrow> Dir [] | Some ch \<Rightarrow> ch) of
        Inl e \<Rightarrow> Inl e
      | Inr ch' \<Rightarrow> Inr (Dir (dict_set es x ch')))"

text \<open>
  \<open>LocalTarget(p).open("w")\<close> with one write: luigi creates the parent directories, then
  the file appears under its name.
\<close>

definition write_target :: "path \<Rightarrow> string \<Rightarrow> node \<Rightarrow> error + node" where
  "write_target p c fs =
     (case makedirs (butlast p) fs of Inl e \<Rightarrow> Inl e | Inr fs' \<Rightarrow> write_file p c fs')"

subsection \<open>Names and globbing\<close>

text \<open>
  \<open>PurePath.stem\<close>: the name without its last suffix; a name whose only dot is the first
  or the last character has no suffix. \<open>with_suffix("")\<close> gives a path with that name.
\<close>

definition stem :: "string \<Rightarrow> string" where
  "stem name =
     (if CHR ''.'' \<in> set name
      then (let i = length name - 1 - length (takeWhile (\<lambda>c. c \<noteq> CHR ''.'') (rev name)) in
            if 0 < i \<and> i < length name - 1 then take i name else name)
      else name)"

definition endswith :: "string \<Rightarrow> string \<Rightarrow> bool" where
  "endswith sfx s = (length sfx \<le> length s \<and> drop (length s - length sfx) s = sfx)"

text \<open>\<open>main_dir.glob("*.gz")\<close>: the entries of \<open>main_dir\<close> itself whose name ends in \<open>.gz\<close>.\<close>

definition glob_gz :: "path \<Rightarrow> node \<Rightarrow> string list" where
  "glob_gz main fs =
     (case lookup fs main of
        Some (Dir es) \<Rightarrow> filter (endswith ''.gz'') (map fst es)
      | _ \<Rightarrow> [])"

text \<open>
  \<open>main_dir.rglob(pattern)\<close>: every directory from \<open>main_dir\<close> down, parents first, gives
  its entries (files and directories alike) whose name matches.
\<close>

fun rglob_from :: "(string \<Rightarrow> bool) \<Rightarrow> path \<Rightarrow> node \<Rightarrow> path list"
  and rglob_children :: "(string \<Rightarrow> bool) \<Rightarrow> path \<Rightarrow> (string \<times> node) list \<Rightarrow> path list" where
  "rglob_from m pre (File c) = []"
| "rglob_from m pre (Dir es) =
     map (\<lambda>n. pre @ [n]) (filter m (map fst es)) @ rglob_children m pre es"
| "rglob_children m pre [] = []"
| "rglob_children m pre ((n, c) # es) = rglob_from m (pre @ [n]) c @ rglob_children m pre es"

definition rglob :: "(string \<Rightarrow> bool) \<Rightarrow> path \<Rightarrow> node \<Rightarrow> path list" where
  "rglob m main fs = (case lookup fs main of Some n \<Rightarrow> rglob_from m main n | None \<Rightarrow> [])"

subsection \<open>Running a stage\<close>

text \<open>
  A stage that raises leaves the files it has written so far: the outcome of a run is the
  file system it leaves and the exception, if any.
\<close>

type_synonym outcome = "node \<times> error option"

definition attempt :: "node \<Rightarrow> error + node \<Rightarrow> (node \<Rightarrow> outcome) \<Rightarrow> outcome" where
  "attempt fs r k = (case r of Inl e \<Rightarrow> (fs, Some e) | Inr fs' \<Rightarrow> k fs')"

fun for_each :: "('a \<Rightarrow> node \<Rightarrow> outcome) \<Rightarrow> 'a list \<Rightarrow> node \<Rightarrow> outcome" where
  "for_each body [] fs = (fs, None)"
| "for_each body (x # xs) fs =
     (case body x fs of (fs', None) \<Rightarrow> for_each body xs fs' | (fs', Some e) \<Rightarrow> (fs', Some e))"

section \<open>Unpack and split: \<open>ExtractAndProcessFiles\<close>\<close>

text \<open>
  \<open>process_text_file\<close> (lines 90 to 121): the text is parsed into \<open>dfs\<close>, then every table
  is written to \<open>file_path.parent / f"{key}.tsv"\<close>. A section name is taken as one path
  component.
\<close>

fun save_tables :: "path \<Rightarrow> (string \<times> dataframe) list \<Rightarrow> node \<Rightarrow> outcome" where
  "save_tables dir [] fs = (fs, None)"
| "save_tables dir ((key, df) # kvs) fs =
     attempt fs (write_file (dir @ [key @ ''.tsv'']) (to_csv df) fs) (save_tables dir kvs)"

definition process_text_file :: "path \<Rightarrow> node \<Rightarrow> outcome" where
  "process_text_file file_path fs =
     (case read_file fs file_path of
        Inl e \<Rightarrow> (fs, Some e)
      | Inr text \<Rightarrow>
          (case parse_sections text of
             Inl e \<Rightarrow> (fs, Some e)
           | Inr d \<Rightarrow> save_tables (butlast file_path) d fs))"

text \<open>
  The body of \<open>for gz_file in main_dir.glob("*.gz")\<close> (lines 67 to 84), in its two parts.
  \<open>extracted_file_path = gz_file.with_suffix("")\<close> has the name \<open>stem gz_name\<close>, the
  directory is named by the stem of that name, and the text file lies in it under the
  name of \<open>extracted_file_path\<close>.
\<close>

definition extracted_dir :: "path \<Rightarrow> string \<Rightarrow> path" where
  "extracted_dir main_dir gz_name = main_dir @ [stem (stem gz_name)]"

definition text_file :: "path \<Rightarrow> string \<Rightarrow> path" where
  "text_file main_dir gz_name = extracted_dir main_dir gz_name @ [stem gz_name]"

text \<open>
  Lines 67 to 80: the directory is made, the member is decompressed into the text file,
  and the member is unlinked. \<open>gunzip\<close> stands for \<open>gzip\<close> decompression (\<open>None\<close>: not a gzip
  stream). Both files of the \<open>with\<close> statement are opened before the member is read, so
  the output file exists, empty, when decompression fails.
\<close>

definition unpack_member :: "(string \<Rightarrow> string option) \<Rightarrow> path \<Rightarrow> string \<Rightarrow> node \<Rightarrow> outcome" where
  "unpack_member gunzip main_dir gz_name fs =
     (let gz_file = main_dir @ [gz_name] in
      attempt fs (makedirs (extracted_dir main_dir gz_name) fs) (\<lambda>fs1.
        case read_file fs1 gz_file of
          Inl e \<Rightarrow> (fs1, Some e)
        | Inr packed \<Rightarrow>
            attempt fs1 (write_file (text_file main_dir gz_name) [] fs1) (\<lambda>fs2.
              case gunzip packed of
                None \<Rightarrow> (fs2, Some BadGzipFile)
              | Some content \<Rightarrow>
                  attempt fs2 (write_file (text_file main_dir gz_name) content fs2) (\<lambda>fs3.
                    attempt fs3 (unlink gz_file fs3) (\<lambda>fs4. (fs4, None))))))"

text \<open>Lines 82 to 84 follow: the text file is split into tables.\<close>

definition process_member :: "(string \<Rightarrow> string option) \<Rightarrow> path \<Rightarrow> string \<Rightarrow> node \<Rightarrow> outcome" where
  "process_member gunzip main_dir gz_name fs =
     (case unpack_member gunzip main_dir gz_name fs of
        (fs4, Some e) \<Rightarrow> (fs4, Some e)
      | (fs4, None) \<Rightarrow> process_text_file (text_file main_dir gz_name) fs4)"

text \<open>
  \<open>run\<close> (lines 55 to 88). \<open>extractall tar main_dir fs\<close> stands for
  \<open>tarfile.open(tar_path).extractall(main_dir)\<close>.
\<close>

definition processed_done :: "path \<Rightarrow> path" where
  "processed_done main_dir = main_dir @ [''processed_done.txt'']"

definition extract_run ::
  "(string \<Rightarrow> path \<Rightarrow> node \<Rightarrow> error + node) \<Rightarrow> (string \<Rightarrow> string option) \<Rightarrow>
   path \<Rightarrow> path \<Rightarrow> node \<Rightarrow> outcome" where
  "extract_run extractall gunzip tar_path main_dir fs =
     attempt fs (makedirs main_dir fs) (\<lambda>fs1.
       case read_file fs1 tar_path of
         Inl e \<Rightarrow> (fs1, Some e)
       | Inr tar \<Rightarrow>
           attempt fs1 (extractall tar main_dir fs1) (\<lambda>fs2.
             case for_each (process_member gunzip main_dir) (glob_gz main_dir fs2) fs2 of
               (fs3, Some e) \<Rightarrow> (fs3, Some e)
             | (fs3, None) \<Rightarrow>
                 attempt fs3 (write_target (processed_done main_dir) ''Processing completed.'' fs3)
                   (\<lambda>fs4. (fs4, None))))"

text \<open>The stage is complete when its output target exists.\<close>

definition extract_complete :: "path \<Rightarrow> node \<Rightarrow> bool" where
  "extract_complete main_dir fs = path_exists fs (processed_done main_dir)"

section \<open>Prune: \<open>TrimProbesTable\<close>\<close>

definition columns_to_remove :: "string list" where
  "columns_to_remove =
     [''Definition'', ''Ontology_Component'', ''Ontology_Process'', ''Ontology_Function'',
      ''Synonyms'', ''Obsolete_Probe_Id'', ''Probe_Sequence'']"

definition probes_files :: "path \<Rightarrow> node \<Rightarrow> path list" where
  "probes_files main_dir fs = rglob (\<lambda>n. n = ''Probes.tsv'') main_dir fs"

text \<open>\<open>probes_file.with_name(f"{probes_file.stem}_trimmed.tsv")\<close>.\<close>

definition trimmed_file_path :: "path \<Rightarrow> path" where
  "trimmed_file_path probes_file = butlast probes_file @ [stem (last probes_file) @ ''_trimmed.tsv'']"

text \<open>\<open>output\<close> (lines 130 to 136).\<close>

definition trim_output :: "path \<Rightarrow> node \<Rightarrow> path list" where
  "trim_output main_dir fs = map trimmed_file_path (probes_files main_dir fs)"

text \<open>The body of \<open>for probes_file in probes_files\<close> (lines 160 to 167) and \<open>run\<close>.\<close>

definition trim_one :: "path \<Rightarrow> node \<Rightarrow> outcome" where
  "trim_one probes_file fs =
     (case read_file fs probes_file of
        Inl e \<Rightarrow> (fs, Some e)
      | Inr text \<Rightarrow>
          (case read_csv text Infer of
             Inl e \<Rightarrow> (fs, Some e)
           | Inr df \<Rightarrow>
               attempt fs
                 (write_file (trimmed_file_path probes_file)
                    (to_csv (drop_columns columns_to_remove df)) fs)
                 (\<lambda>fs'. (fs', None))))"

definition trim_run :: "path \<Rightarrow> node \<Rightarrow> outcome" where
  "trim_run main_dir fs =
     (let found = probes_files main_dir fs in
      if found = [] then (fs, Some (ProbesFilesNotFound main_dir))
      else for_each trim_one found fs)"

section \<open>Sweep: \<open>CleanupOriginalFiles\<close>\<close>

text \<open>
  \<open>for f in main_dir.rglob(pattern): f.unlink()\<close> (lines 187 to 196). The generator lists a
  directory for its matching entries and, once the loop body has unlinked them, lists it
  again for its subdirectories. Unlinking a file changes no listing that is still to
  come, so the loop goes through the paths \<open>rglob\<close> finds in the tree at its start; the
  first \<open>unlink\<close> that raises (a matching entry that is a directory) ends it.
\<close>

definition unlink_each :: "path list \<Rightarrow> node \<Rightarrow> outcome" where
  "unlink_each paths fs =
     for_each (\<lambda>p fs1. attempt fs1 (unlink p fs1) (\<lambda>fs2. (fs2, None))) paths fs"

text \<open>
  \<open>for dir_path in main_dir.glob("**/"): if not any(dir_path.iterdir()): dir_path.rmdir()\<close>
  (lines 199 to 202). The generator yields a directory, the loop body tests and removes
  it, and only then the generator lists that directory and goes on with its
  subdirectories: every directory is tested before any directory below it is removed,
  and it is tested once. What happens when the generator comes to list a directory that
  the body has just removed depends on the interpreter: \<open>pathlib\<close> before Python 3.12
  raises \<open>FileNotFoundError\<close> there (\<open>listing_raises\<close> true), which ends the run; from
  3.12 on it skips the directory (\<open>listing_raises\<close> false). The first component of the
  result is the directory after the pass, \<open>None\<close> when it was removed itself.
\<close>

fun remove_empty :: "bool \<Rightarrow> node \<Rightarrow> node option \<times> error option"
  and remove_empty_entries ::
    "bool \<Rightarrow> (string \<times> node) list \<Rightarrow> (string \<times> node) list \<times> error option" where
  "remove_empty listing_raises (File c) = (Some (File c), None)"
| "remove_empty listing_raises (Dir es) =
     (if es = [] then (None, if listing_raises then Some FileNotFoundError else None)
      else (case remove_empty_entries listing_raises es of
              (es', r) \<Rightarrow> (Some (Dir es'), r)))"
| "remove_empty_entries listing_raises [] = ([], None)"
| "remove_empty_entries listing_raises ((n, c) # es) =
     (case remove_empty listing_raises c of
        (c', Some e) \<Rightarrow>
          ((case c' of None \<Rightarrow> es | Some d \<Rightarrow> (n, d) # es), Some e)
      | (c', None) \<Rightarrow>
          (case remove_empty_entries listing_raises es of
             (es', r) \<Rightarrow> ((case c' of None \<Rightarrow> es' | Some d \<Rightarrow> (n, d) # es'), r)))"

text \<open>The pass from \<open>main_dir\<close>; nothing is globbed when \<open>main_dir\<close> is not a directory.\<close>

definition remove_empty_dirs :: "bool \<Rightarrow> path \<Rightarrow> node \<Rightarrow> outcome" where
  "remove_empty_dirs listing_raises main_dir fs =
     (case lookup fs main_dir of
        Some (Dir es) \<Rightarrow>
          (case remove_empty listing_raises (Dir es) of
             (d, r) \<Rightarrow>
               (case modify main_dir (\<lambda>cur. Inr d) fs of
                  Inl e \<Rightarrow> (fs, Some e)
                | Inr fs' \<Rightarrow> (fs', r)))
      | _ \<Rightarrow> (fs, None))"

definition cleanup_done :: "path \<Rightarrow> path" where
  "cleanup_done main_dir = main_dir @ [''cleanup_done.txt'']"

text \<open>\<open>run\<close> (lines 182 to 209).\<close>

definition cleanup_run :: "bool \<Rightarrow> path \<Rightarrow> node \<Rightarrow> outcome" where
  "cleanup_run listing_raises main_dir fs =
     (case unlink_each (rglob (endswith ''.txt'') main_dir fs) fs of
        (fs1, Some e) \<Rightarrow> (fs1, Some e)
      | (fs1, None) \<Rightarrow>
          (case unlink_each (rglob (endswith ''.gz'') main_dir fs1) fs1 of
             (fs2, Some e) \<Rightarrow> (fs2, Some e)
           | (fs2, None) \<Rightarrow>
               (case remove_empty_dirs listing_raises main_dir fs2 of
                  (fs3, Some e) \<Rightarrow> (fs3, Some e)
                | (fs3, None) \<Rightarrow>
                    attempt fs3
                      (write_target (cleanup_done main_dir) (''Cleanup completed.'' @ [nl]) fs3)
                      (\<lambda>fs4. (fs4, None)))))"

section \<open>A small dataset\<close>

text \<open>
  A run of the whole pipeline on a dataset \<open>DS\<close> under \<open>data\<close>: the archive holds one
  member \<open>m.txt.gz\<close> whose text has one section \<open>Probes\<close>. The archive and the compression
  are the identity here.
\<close>

definition demo_main :: path where
  "demo_main = [''data'', ''DS'']"

definition demo_text :: string where
  "demo_text =
     ''[Probes]'' @ [nl] @ ''Probe_Id'' @ [tab] @ ''Definition'' @ [nl] @
     ''p1'' @ [tab] @ ''d1'' @ [nl]"

definition demo_extractall :: "string \<Rightarrow> path \<Rightarrow> node \<Rightarrow> error + node" where
  "demo_extractall tar main_dir fs = write_file (main_dir @ [''m.txt.gz'']) tar fs"

definition demo_start :: node where
  "demo_start = Dir [(''data'', Dir [(''DS_RAW.tar'', File demo_text)])]"

text \<open>The same dataset once the archive is extracted, before the members are handled.\<close>

definition demo_extracted :: node where
  "demo_extracted =
     Dir [(''data'', Dir [(''DS_RAW.tar'', File demo_text),
                         (''DS'', Dir [(''m.txt.gz'', File demo_text)])])]"

definition demo_split :: node where
  "demo_split = fst (extract_run demo_extractall Some [''data'', ''DS_RAW.tar''] demo_main demo_start)"

definition demo_trimmed :: node where
  "demo_trimmed = fst (trim_run demo_main demo_split)"

text \<open>A dataset directory in which the only text file lies two directories deep.\<close>

definition nested_fs :: node where
  "nested_fs =
     Dir [(''data'', Dir [(''DS'',
       Dir [(''a'', Dir [(''b'', Dir [(''x.txt'', File ''raw'')])]),
            (''m'', Dir [(''Probes.tsv'', File (''Probe_Id'' @ [nl]))])])])]"

section \<open>Well-formed trees\<close>

text \<open>A directory never lists a name twice.\<close>

fun wf_node :: "node \<Rightarrow> bool"
  and wf_entries :: "(string \<times> node) list \<Rightarrow> bool" where
  "wf_node (File c) = True"
| "wf_node (Dir es) = (distinct (map fst es) \<and> wf_entries es)"
| "wf_entries [] = True"
| "wf_entries ((n, c) # es) = (wf_node c \<and> wf_entries es)"

section \<open>Reading a cell\<close>

text \<open>\<open>df.loc[i, l]\<close>: the value of row \<open>i\<close> under the label \<open>l\<close>.\<close>

definition cell :: "dataframe \<Rightarrow> nat \<Rightarrow> label \<Rightarrow> string option" where
  "cell df i l = map_of (zip (columns df) (rows df ! i)) l"

section \<open>Rows that need no quoting\<close>

text \<open>A row that \<open>csv.writer\<close> writes as its fields joined by the delimiter.\<close>

definition plain_row :: "string list \<Rightarrow> bool" where
  "plain_row r = (r \<noteq> [[]] \<and> list_all (\<lambda>f. \<not> needs_quotes f) r)"

section \<open>The parser before its first line\<close>

definition scan_start :: scan_state where
  "scan_start = \<lparr>dfs = [], write_key = None, fio = []\<rparr>"

section \<open>Rows that the tokenizer gives back\<close>




section \<open>The values of a table\<close>



























section \<open>Files the prune stage can handle\<close>

text \<open>
  A found file that the loop body handles without raising: it is a file whose text
  \<open>read_csv\<close> accepts, and its trimmed target is not a directory.
\<close>

definition trimmable :: "node \<Rightarrow> path \<Rightarrow> bool" where
  "trimmable fs p =
     ((case read_file fs p of Inl e \<Rightarrow> False | Inr body \<Rightarrow> \<not> isl (read_csv body Infer))
      \<and> (case lookup fs (trimmed_file_path p) of Some (Dir es) \<Rightarrow> False | _ \<Rightarrow> True))"

text \<open>A dataset with two \<open>Probes.tsv\<close>, the second one empty.\<close>

definition two_probes_fs :: node where
  "two_probes_fs =
     Dir [(''data'', Dir [(''DS'',
       Dir [(''m1'', Dir [(''Probes.tsv'', File (''Probe_Id'' @ [nl] @ ''p1'' @ [nl]))]),
            (''m2'', Dir [(''Probes.tsv'', File [])])])])]"

section \<open>Paths and globbing\<close>

lemma lookup_append:
  "lookup fs (p @ q) = (case lookup fs p of None \<Rightarrow> None | Some n \<Rightarrow> lookup n q)"
proof (induction p arbitrary: fs)
  case Nil
  show ?case by simp
next
  case (Cons x p)
  show ?case
  proof (cases fs)
    case (File c)
    then show ?thesis by simp
  next
    case (Dir es)
    then show ?thesis using Cons.IH by (simp split: option.splits)
  qed
qed

lemma wf_entries_member: "wf_entries es \<Longrightarrow> (x, ch) \<in> set es \<Longrightarrow> wf_node ch"
  by (induction es) auto

lemma wf_lookup: "wf_node fs \<Longrightarrow> lookup fs p = Some n \<Longrightarrow> wf_node n"
proof (induction p arbitrary: fs)
  case Nil
  then show ?case by simp
next
  case (Cons x p)
  then show ?case
    by (cases fs) (auto split: option.splits dest: map_of_SomeD wf_entries_member)
qed

lemma rglob_children_member:
  "(x, ch) \<in> set es \<Longrightarrow> set (rglob_from m (pre @ [x]) ch) \<subseteq> set (rglob_children m pre es)"
  by (induction es) auto

lemma rglob_from_complete:
  "lookup n q = Some t \<Longrightarrow> q \<noteq> [] \<Longrightarrow> m (last q) \<Longrightarrow> pre @ q \<in> set (rglob_from m pre n)"
proof (induction q arbitrary: n pre)
  case Nil
  then show ?case by simp
next
  case (Cons x r)
  then obtain es where n: "n = Dir es" by (cases n) auto
  from Cons.prems n obtain ch where ch: "map_of es x = Some ch" "lookup ch r = Some t"
    by (auto split: option.splits)
  then have mem: "(x, ch) \<in> set es" by (auto dest: map_of_SomeD)
  show ?case
  proof (cases r)
    case Nil
    with Cons.prems mem n show ?thesis by force
  next
    case (Cons y r')
    with Cons.prems have "m (last r)" "r \<noteq> []" by auto
    with Cons.IH [OF ch(2), of "pre @ [x]"] have "(pre @ [x]) @ r \<in> set (rglob_from m (pre @ [x]) ch)"
      by simp
    with rglob_children_member [OF mem, of m pre] n show ?thesis by auto
  qed
qed

lemma rglob_sound:
  "wf_node n \<Longrightarrow> p \<in> set (rglob_from m pre n) \<Longrightarrow>
     \<exists>q. p = pre @ q \<and> q \<noteq> [] \<and> m (last q) \<and> lookup n q \<noteq> None"
  "wf_entries es \<Longrightarrow> distinct (map fst es) \<Longrightarrow> p \<in> set (rglob_children m pre es) \<Longrightarrow>
     \<exists>x q. p = pre @ x # q \<and> q \<noteq> [] \<and> m (last q) \<and> lookup (Dir es) (x # q) \<noteq> None"
proof (induction m pre n and m pre es arbitrary: p and p rule: rglob_from_rglob_children.induct)
  case (1 m pre c)
  then show ?case by simp
next
  case (2 m pre es)
  from "2.prems" consider (here) x where "x \<in> set (map fst es)" "m x" "p = pre @ [x]"
    | (below) "p \<in> set (rglob_children m pre es)" by auto
  then show ?case
  proof cases
    case here
    then have "map_of es x \<noteq> None" by (simp add: map_of_eq_None_iff)
    with here show ?thesis by (intro exI [of _ "[x]"]) auto
  next
    case below
    with "2.IH" "2.prems" obtain x q where
      "p = pre @ x # q" "q \<noteq> []" "m (last q)" "lookup (Dir es) (x # q) \<noteq> None"
      by auto blast
    then show ?thesis by (intro exI [of _ "x # q"]) auto
  qed
next
  case (3 m pre)
  then show ?case by simp
next
  case (4 m pre n c es)
  from "4.prems" consider (first) "p \<in> set (rglob_from m (pre @ [n]) c)"
    | (rest) "p \<in> set (rglob_children m pre es)" by auto
  then show ?case
  proof cases
    case first
    with "4.IH"(1) "4.prems" obtain q where
      "p = (pre @ [n]) @ q" "q \<noteq> []" "m (last q)" "lookup c q \<noteq> None" by auto blast
    then show ?thesis by (intro exI [of _ n] exI [of _ q]) auto
  next
    case rest
    with "4.IH"(2) "4.prems" obtain x q where
      xq: "p = pre @ x # q" "q \<noteq> []" "m (last q)" "lookup (Dir es) (x # q) \<noteq> None"
      by auto blast
    then have "map_of es x \<noteq> None" by (auto split: option.splits)
    then have "x \<in> fst ` set es" by (simp add: map_of_eq_None_iff)
    with "4.prems" have "x \<noteq> n" by auto
    with xq show ?thesis by (intro exI [of _ x] exI [of _ q]) auto
  qed
qed

lemma rglob_iff:
  assumes "wf_node fs"
  shows "p \<in> set (rglob m main fs) \<longleftrightarrow>
         (\<exists>q. p = main @ q \<and> q \<noteq> [] \<and> m (last q) \<and> path_exists fs p)"
proof
  assume p: "p \<in> set (rglob m main fs)"
  then obtain n where n: "lookup fs main = Some n" "p \<in> set (rglob_from m main n)"
    by (cases "lookup fs main") (auto simp: rglob_def)
  with assms have "wf_node n" by (auto dest: wf_lookup)
  from rglob_sound(1) [OF this n(2)] n(1) show
    "\<exists>q. p = main @ q \<and> q \<noteq> [] \<and> m (last q) \<and> path_exists fs p"
    by (auto simp: path_exists_def lookup_append)
next
  assume "\<exists>q. p = main @ q \<and> q \<noteq> [] \<and> m (last q) \<and> path_exists fs p"
  then obtain q t where q: "p = main @ q" "q \<noteq> []" "m (last q)" "lookup fs (main @ q) = Some t"
    by (auto simp: path_exists_def)
  then obtain n where n: "lookup fs main = Some n" "lookup n q = Some t"
    by (auto simp: lookup_append split: option.splits)
  from rglob_from_complete [where m = m and n = n and q = q and t = t and pre = main] n q
  show "p \<in> set (rglob m main fs)" by (simp add: rglob_def)
qed

lemma rglob_distinct:
  "wf_node n \<Longrightarrow> distinct (rglob_from m pre n)"
  "wf_entries es \<Longrightarrow> distinct (map fst es) \<Longrightarrow> distinct (rglob_children m pre es)"
proof (induction m pre n and m pre es rule: rglob_from_rglob_children.induct)
  case (1 m pre c)
  show ?case by simp
next
  case (2 m pre es)
  have d1: "distinct (map (\<lambda>n. pre @ [n]) (filter m (map fst es)))"
    using "2.prems" by (auto simp: distinct_map inj_on_def)
  have d2: "distinct (rglob_children m pre es)" using 2 by simp
  have "set (map (\<lambda>n. pre @ [n]) (filter m (map fst es))) \<inter> set (rglob_children m pre es) = {}"
  proof (rule ccontr)
    assume "\<not> ?thesis"
    then obtain p x where p: "p = pre @ [x]" "p \<in> set (rglob_children m pre es)" by auto
    from rglob_sound(2) [OF _ _ p(2)] "2.prems" obtain y q where "p = pre @ y # q" "q \<noteq> []"
      by auto
    with p(1) show False by simp
  qed
  with d1 d2 show ?case by simp
next
  case (3 m pre)
  show ?case by simp
next
  case (4 m pre n c es)
  have d1: "distinct (rglob_from m (pre @ [n]) c)" using 4 by simp
  have d2: "distinct (rglob_children m pre es)" using 4 by simp
  have "set (rglob_from m (pre @ [n]) c) \<inter> set (rglob_children m pre es) = {}"
  proof (rule ccontr)
    assume "\<not> ?thesis"
    then obtain p where p: "p \<in> set (rglob_from m (pre @ [n]) c)" "p \<in> set (rglob_children m pre es)"
      by auto
    from rglob_sound(1) [OF _ p(1)] "4.prems" obtain q where q: "p = (pre @ [n]) @ q" by auto
    from rglob_sound(2) [OF _ _ p(2)] "4.prems" obtain y r where
      r: "p = pre @ y # r" "lookup (Dir es) (y # r) \<noteq> None" by auto
    then have "map_of es y \<noteq> None" by (auto split: option.splits)
    then have "y \<in> fst ` set es" by (simp add: map_of_eq_None_iff)
    moreover from q r have "y = n" by simp
    ultimately show False using "4.prems" by auto
  qed
  with d1 d2 show ?case by simp
qed

lemma stem_Probes: "stem ''Probes.tsv'' = ''Probes''"
  by code_simp

section \<open>Errors of the file operations\<close>

lemma modify_error:
  "modify p f fs = Inl e \<Longrightarrow>
     (\<exists>cur. f cur = Inl e) \<or> e = PermissionError \<or> e = NotADirectoryError \<or> e = FileNotFoundError"
  by (induction p f fs rule: modify.induct) (auto split: sum.splits option.splits)

lemma write_file_error:
  "write_file p c fs = Inl e \<Longrightarrow>
     e = IsADirectoryError \<or> e = PermissionError \<or> e = NotADirectoryError \<or> e = FileNotFoundError"
proof -
  assume "write_file p c fs = Inl e"
  from modify_error [OF this [unfolded write_file_def]] show ?thesis
    by (elim disjE exE) (auto split: option.splits node.splits)
qed

lemma read_file_error: "read_file fs p = Inl e \<Longrightarrow> e = FileNotFoundError \<or> e = IsADirectoryError"
  by (auto simp: read_file_def split: option.splits node.splits)

lemma end_line_error: "end_line r rest = Inl e \<Longrightarrow> rest = Inl e"
  by (simp add: end_line_def split: sum.splits)

lemma tokenize_error: "tokenize st cur row s = Inl e \<Longrightarrow> e = ParserError"
  by (induction st cur row s rule: tokenize.induct)
     (auto split: tstate.splits if_splits dest!: end_line_error)

lemma read_csv_error: "read_csv text h = Inl e \<Longrightarrow> e = EmptyDataError \<or> e = ParserError"
  by (auto simp: read_csv_def records_def Let_def
           split: sum.splits list.splits header_arg.splits if_splits dest: tokenize_error)

lemma trim_one_error: "trim_one p fs = (fs', Some e) \<Longrightarrow> e \<noteq> ProbesFilesNotFound d"
  by (auto simp: trim_one_def attempt_def split: sum.splits
           dest!: read_file_error read_csv_error write_file_error)

lemma for_each_trim_one_error:
  "for_each trim_one ps fs = (fs', Some e) \<Longrightarrow> e \<noteq> ProbesFilesNotFound d"
proof (induction ps arbitrary: fs)
  case Nil
  then show ?case by simp
next
  case (Cons p ps)
  obtain fs1 r where step: "trim_one p fs = (fs1, r)" by (cases "trim_one p fs")
  show ?case
  proof (cases r)
    case None
    with step Cons.prems have "for_each trim_one ps fs1 = (fs', Some e)" by simp
    then show ?thesis by (rule Cons.IH)
  next
    case (Some e')
    with step Cons.prems have "e' = e" "trim_one p fs = (fs1, Some e)" by auto
    then show ?thesis by (auto dest: trim_one_error)
  qed
qed

section \<open>Reading back what was written; dropping columns\<close>

lemma lookup_modify_same:
  "modify p f fs = Inr fs' \<Longrightarrow> \<exists>cur r. f cur = Inr r \<and> lookup fs' p = r"
proof (induction p f fs arbitrary: fs' rule: modify.induct)
  case (1 f n)
  then show ?case by (auto split: sum.splits option.splits)
next
  case (2 x p f c)
  then show ?case by simp
next
  case (3 x f es)
  have a: "map_of (dict_set es x v) x = Some v" for v by (induction es) auto
  have b: "map_of (del_entry es x) x = None"
    by (auto simp: del_entry_def map_of_eq_None_iff)
  from 3 show ?case by (auto split: sum.splits option.splits simp: a b)
next
  case (4 x y p f es)
  have a: "map_of (dict_set es x v) x = Some v" for v by (induction es) auto
  from 4 show ?case by (auto split: sum.splits option.splits simp: a)
qed

lemma read_after_write:
  "write_file p c fs = Inr fs' \<Longrightarrow> read_file fs' p = Inr c"
proof -
  assume "write_file p c fs = Inr fs'"
  from lookup_modify_same [OF this [unfolded write_file_def]]
  obtain cur r where r: "(case cur of Some (Dir es) \<Rightarrow> Inl IsADirectoryError
                                | _ \<Rightarrow> Inr (Some (File c))) = Inr r" "lookup fs' p = r"
    by blast
  from r(1) have "r = Some (File c)" by (auto split: option.splits node.splits)
  with r(2) show ?thesis by (simp add: read_file_def)
qed

lemma rglob_from_last:
  "p \<in> set (rglob_from m pre n) \<Longrightarrow> p \<noteq> [] \<and> m (last p)"
  "p \<in> set (rglob_children m pre es) \<Longrightarrow> p \<noteq> [] \<and> m (last p)"
  by (induction m pre n and m pre es rule: rglob_from_rglob_children.induct) auto

lemma rglob_last: "p \<in> set (rglob m main fs) \<Longrightarrow> p \<noteq> [] \<and> m (last p)"
  by (auto simp: rglob_def split: option.splits dest: rglob_from_last(1))

lemma length_dedup_names: "length (dedup_names counts cols) = length cols"
  by (induction cols arbitrary: counts) (auto split: prod.splits)

lemma length_unnamed_from: "length (unnamed_from i cs) = length cs"
  by (induction cs arbitrary: i) auto

lemma length_header_names: "length (header_names flds) = length flds"
  by (simp add: header_names_def length_dedup_names length_unnamed_from)

lemma length_pad: "length r \<le> w \<Longrightarrow> length (pad w r) = w"
  by (simp add: pad_def)

lemma read_csv_rectangular:
  assumes "read_csv text h = Inr df" and "r \<in> set (rows df)"
  shows "length r = length (columns df)"
proof -
  from assms(1) obtain first rest where Cons: "records text = Inr (first # rest)"
    by (auto simp: read_csv_def split: sum.splits list.splits)
  show ?thesis
  proof (cases h)
    case NoHeader
    let ?w = "length first"
    from assms(1) Cons NoHeader have ok: "list_all (\<lambda>r. length r \<le> ?w) rest"
      and df: "df = \<lparr>columns = map Pos [0..<?w], rows = map (pad ?w) (first # rest)\<rparr>"
      by (auto simp: read_csv_def Let_def split: if_splits)
    from assms(2) df obtain r0 where "r0 \<in> set (first # rest)" "r = pad ?w r0" by auto
    with ok have "length r = ?w" by (auto simp: list_all_iff length_pad)
    with df show ?thesis by simp
  next
    case Infer
    let ?h = "length first"
    define w where "w = (case rest of [] \<Rightarrow> ?h | d # _ \<Rightarrow> max ?h (length d))"
    from assms(1) Cons Infer have ok: "list_all (\<lambda>r. length r \<le> w) rest"
      and df: "df = \<lparr>columns = map Name (header_names first),
                         rows = map (\<lambda>r. drop (w - ?h) (pad w r)) rest\<rparr>"
      by (auto simp: read_csv_def Let_def w_def split: if_splits)
    have hw: "?h \<le> w" by (simp add: w_def split: list.splits)
    from assms(2) df obtain r0 where "r0 \<in> set rest" "r = drop (w - ?h) (pad w r0)" by auto
    with ok hw have "length r = ?h" by (auto simp: list_all_iff length_pad)
    with df show ?thesis by (simp add: length_header_names)
  qed
qed

lemma map_of_filter_key:
  "map_of (filter (\<lambda>(k, v). P k) xs) k = (if P k then map_of xs k else None)"
  by (induction xs) auto

lemma zip_fst_snd: "zip (map fst xs) (map snd xs) = xs"
  by (induction xs) auto

lemma drop_columns_cell:
  assumes "i < length (rows df)" and "length (rows df ! i) = length (columns df)" and "kept names l"
  shows "cell (drop_columns names df) i l = cell df i l"
proof -
  let ?z = "zip (columns df) (rows df ! i)"
  let ?f = "filter (\<lambda>(l, v). kept names l) ?z"
  have "map fst ?f = filter (kept names) (map fst ?z)"
    by (simp add: filter_map comp_def case_prod_unfold)
  also have "map fst ?z = columns df" using assms(2) by simp
  finally have "zip (filter (kept names) (columns df)) (map snd ?f) = ?f"
    by (metis zip_fst_snd)
  with assms(1,3) show ?thesis
    by (simp add: cell_def drop_columns_def map_of_filter_key)
qed


lemma kept_iff: "kept names l \<longleftrightarrow> l \<notin> Name ` set names"
  by (cases l) (auto simp: kept_def)

section \<open>The lines of a written table\<close>

lemma file_lines_from_line:
  "nl \<notin> set s \<Longrightarrow> file_lines_from cur (s @ nl # rest) = (cur @ s @ [nl]) # file_lines_from [] rest"
  by (induction s arbitrary: cur) auto

lemma file_lines_concat:
  assumes "list_all (\<lambda>l. nl \<notin> set l) ls"
  shows "file_lines (concat (map (\<lambda>l. l @ [nl]) ls)) = map (\<lambda>l. l @ [nl]) ls"
  using assms
proof (induction ls)
  case Nil
  show ?case by (simp add: file_lines_def)
next
  case (Cons l ls)
  then have "file_lines_from [] (l @ nl # concat (map (\<lambda>l. l @ [nl]) ls))
               = (l @ [nl]) # file_lines_from [] (concat (map (\<lambda>l. l @ [nl]) ls))"
    using file_lines_from_line [of l "[]"] by simp
  with Cons show ?case by (simp add: file_lines_def)
qed

lemma set_join: "set (join sep r) \<subseteq> insert sep (\<Union> (set ` set r))"
  by (induction sep r rule: join.induct) auto

lemma plain_row_writerow: "plain_row r \<Longrightarrow> writerow r = join tab r @ [nl]"
proof -
  assume p: "plain_row r"
  then have "map quote_field r = r"
    by (auto simp: plain_row_def list_all_iff quote_field_def intro: map_idI)
  with p show ?thesis by (simp add: writerow_def plain_row_def)
qed

lemma plain_row_no_nl: "plain_row r \<Longrightarrow> nl \<notin> set (join tab r)"
proof
  assume p: "plain_row r" and "nl \<in> set (join tab r)"
  with set_join [of tab r] obtain f where "f \<in> set r" "nl \<in> set f" by auto
  with p show False by (auto simp: plain_row_def list_all_iff needs_quotes_def)
qed

section \<open>Scanning a stream in two parts\<close>

lemma file_lines_from_append:
  "pre \<noteq> [] \<Longrightarrow> last pre = nl \<Longrightarrow>
     file_lines_from cur (pre @ s) = file_lines_from cur pre @ file_lines_from [] s"
proof (induction pre arbitrary: cur)
  case Nil
  then show ?case by simp
next
  case (Cons c pre)
  show ?case
  proof (cases "pre = []")
    case True
    with Cons.prems show ?thesis by simp
  next
    case False
    with Cons show ?thesis by simp
  qed
qed

lemma file_lines_append:
  "pre = [] \<or> last pre = nl \<Longrightarrow> file_lines (pre @ s) = file_lines pre @ file_lines s"
  by (cases "pre = []") (auto simp: file_lines_def file_lines_from_append)

lemma file_lines_from_first:
  "cur \<noteq> [] \<Longrightarrow> \<exists>sfx ls. file_lines_from cur r = (cur @ sfx) # ls"
proof (induction r arbitrary: cur)
  case Nil
  then show ?case by simp
next
  case (Cons c r)
  show ?case
  proof (cases "c = nl")
    case True
    then show ?thesis by simp
  next
    case False
    from Cons.IH [of "cur @ [c]"] obtain sfx ls where
      "file_lines_from (cur @ [c]) r = ((cur @ [c]) @ sfx) # ls" by auto
    with False show ?thesis by simp
  qed
qed

lemma file_lines_header_first:
  assumes "startswith ''['' rest"
  shows "\<exists>l ls. file_lines rest = l # ls \<and> startswith ''['' l"
proof -
  from assms obtain r where rest: "rest = CHR ''['' # r"
    by (cases rest) (auto simp: startswith_def)
  from file_lines_from_first [of "''[''" r] obtain sfx ls where
    "file_lines_from ''['' r = (''['' @ sfx) # ls" by auto
  with rest show ?thesis by (auto simp: file_lines_def startswith_def)
qed

lemma scan_lines_append:
  "scan_lines st (xs @ ys) = (case scan_lines st xs of Inl e \<Rightarrow> Inl e | Inr st' \<Rightarrow> scan_lines st' ys)"
  by (induction xs arbitrary: st) (auto split: sum.splits)

lemma read_csv_empty: "read_csv [] h = Inl EmptyDataError"
  by (simp add: read_csv_def records_def)

lemma scan_line_header:
  assumes "startswith ''['' l" and "scan_line st l = Inr st'"
  shows "write_key st' = Some (strip [CHR ''['', CHR '']'', nl] l) \<and> fio st' = []"
  using assms by (auto simp: scan_line_def split: sum.splits if_splits)

lemma scan_line_on_empty_section:
  assumes "startswith ''['' l" and "truthy (write_key st)" and "fio st = []"
  shows "scan_line st l = Inl EmptyDataError"
  using assms by (simp add: scan_line_def read_csv_empty)

lemma flush_last_on_empty_section:
  assumes "truthy (write_key st)" and "fio st = []"
  shows "flush_last st = Inl EmptyDataError"
  using assms by (simp add: flush_last_def read_csv_empty)

lemma file_lines_single: "nl \<notin> set h \<Longrightarrow> file_lines (h @ [nl]) = [h @ [nl]]"
  using file_lines_from_line [of h "[]" "[]"] by (simp add: file_lines_def)

section \<open>What a write leaves alone\<close>

lemma map_of_dict_set_other: "y \<noteq> x \<Longrightarrow> map_of (dict_set es x v) y = map_of es y"
  by (induction es) auto

lemma map_of_del_entry_other: "y \<noteq> x \<Longrightarrow> map_of (del_entry es x) y = map_of es y"
  by (induction es) (auto simp: del_entry_def)

lemma map_of_dict_set_same: "map_of (dict_set es x v) x = Some v"
  by (induction es) auto

lemma lookup_modify_other:
  "modify (c @ x # p) f fs = Inr fs' \<Longrightarrow> y \<noteq> x \<Longrightarrow> lookup fs' (c @ y # q) = lookup fs (c @ y # q)"
proof (induction c arbitrary: fs fs')
  case Nil
  then obtain es where fs: "fs = Dir es" by (cases fs) auto
  show ?case
  proof (cases p)
    case Nil
    with Nil.prems fs show ?thesis
      by (auto split: sum.splits option.splits simp: map_of_dict_set_other map_of_del_entry_other)
  next
    case (Cons z p')
    with Nil.prems fs show ?thesis
      by (auto split: sum.splits option.splits simp: map_of_dict_set_other)
  qed
next
  case (Cons z c)
  then obtain es where fs: "fs = Dir es" by (cases fs) auto
  obtain w r where r: "c @ x # p = w # r" by (cases "c @ x # p") auto
  with Cons.prems fs obtain ch ch' where
    ch: "map_of es z = Some ch" "modify (c @ x # p) f ch = Inr ch'" "fs' = Dir (dict_set es z ch')"
    by (auto split: sum.splits option.splits)
  from Cons.IH [OF ch(2) Cons.prems(2)] ch fs show ?case
    by (simp add: map_of_dict_set_same)
qed

lemma makedirs_is_dir: "makedirs p fs = Inr fs' \<Longrightarrow> \<exists>es. lookup fs' p = Some (Dir es)"
proof (induction p fs arbitrary: fs' rule: makedirs.induct)
  case (1 es)
  then show ?case by auto
next
  case (2 c)
  then show ?case by simp
next
  case (3 x p c)
  then show ?case by simp
next
  case (4 x p es)
  then show ?case by (auto split: sum.splits simp: map_of_dict_set_same)
qed


lemma makedirs_files:
  "makedirs p fs = Inr fs' \<Longrightarrow> lookup fs' q = Some (File c) \<longleftrightarrow> lookup fs q = Some (File c)"
proof (induction p fs arbitrary: fs' q rule: makedirs.induct)
  case (1 es)
  then show ?case by auto
next
  case (2 c)
  then show ?case by simp
next
  case (3 x p c)
  then show ?case by simp
next
  case (4 x p es)
  let ?ch = "case map_of es x of None \<Rightarrow> Dir [] | Some ch \<Rightarrow> ch"
  from "4.prems" obtain ch' where ch': "makedirs p ?ch = Inr ch'" "fs' = Dir (dict_set es x ch')"
    by (auto split: sum.splits)
  show ?case
  proof (cases q)
    case Nil
    with ch' show ?thesis by simp
  next
    case (Cons y q')
    show ?thesis
    proof (cases "y = x")
      case False
      with Cons ch' show ?thesis by (simp add: map_of_dict_set_other)
    next
      case True
      have "lookup ch' q' = Some (File c) \<longleftrightarrow> lookup ?ch q' = Some (File c)"
        using "4.IH" [OF ch'(1)] .
      moreover have "lookup (Dir []) q' \<noteq> Some (File c)" by (cases q') auto
      ultimately show ?thesis using Cons True ch'
        by (auto simp: map_of_dict_set_same split: option.splits)
    qed
  qed
qed

lemma unlink_removes: "unlink p fs = Inr fs' \<Longrightarrow> lookup fs' p = None"
proof -
  assume "unlink p fs = Inr fs'"
  from lookup_modify_same [OF this [unfolded unlink_def]]
  obtain cur r where r: "(case cur of None \<Rightarrow> Inl FileNotFoundError
                                | Some (Dir es) \<Rightarrow> Inl IsADirectoryError
                                | Some (File c) \<Rightarrow> Inr None) = Inr r" "lookup fs' p = r"
    by blast
  from r(1) have "r = None" by (auto split: option.splits node.splits)
  with r(2) show ?thesis by simp
qed

lemma write_file_other:
  "write_file (c @ x # p) t fs = Inr fs' \<Longrightarrow> y \<noteq> x \<Longrightarrow> lookup fs' (c @ y # q) = lookup fs (c @ y # q)"
  unfolding write_file_def by (rule lookup_modify_other)

lemma unlink_other:
  "unlink (c @ x # p) fs = Inr fs' \<Longrightarrow> y \<noteq> x \<Longrightarrow> lookup fs' (c @ y # q) = lookup fs (c @ y # q)"
  unfolding unlink_def by (rule lookup_modify_other)

lemma save_tables_other_dir:
  "save_tables (c @ [x]) kvs fs = (fs', r) \<Longrightarrow> y \<noteq> x \<Longrightarrow>
     lookup fs' (c @ y # q) = lookup fs (c @ y # q)"
proof (induction kvs arbitrary: fs)
  case Nil
  then show ?case by simp
next
  case (Cons kv kvs)
  obtain k df where kv: "kv = (k, df)" by (cases kv)
  show ?case
  proof (cases "write_file ((c @ [x]) @ [k @ ''.tsv'']) (to_csv df) fs")
    case (Inl e)
    with Cons.prems kv show ?thesis by (simp add: attempt_def)
  next
    case (Inr fs1)
    then have "write_file (c @ x # [k @ ''.tsv'']) (to_csv df) fs = Inr fs1" by simp
    from write_file_other [OF this Cons.prems(2)]
    have "lookup fs1 (c @ y # q) = lookup fs (c @ y # q)" .
    moreover from Inr Cons.prems kv have "save_tables (c @ [x]) kvs fs1 = (fs', r)"
      by (simp add: attempt_def)
    ultimately show ?thesis using Cons.IH Cons.prems(2) by simp
  qed
qed

lemma save_tables_other_key:
  "save_tables dir kvs fs = (fs', r) \<Longrightarrow> k \<notin> fst ` set kvs \<Longrightarrow>
     lookup fs' (dir @ [k @ ''.tsv'']) = lookup fs (dir @ [k @ ''.tsv''])"
proof (induction kvs arbitrary: fs)
  case Nil
  then show ?case by simp
next
  case (Cons kv kvs)
  obtain k' df where kv: "kv = (k', df)" by (cases kv)
  with Cons.prems have ne: "k @ ''.tsv'' \<noteq> k' @ ''.tsv''" by auto
  show ?case
  proof (cases "write_file (dir @ [k' @ ''.tsv'']) (to_csv df) fs")
    case (Inl e)
    with Cons.prems kv show ?thesis by (simp add: attempt_def)
  next
    case (Inr fs1)
    from write_file_other [of dir "k' @ ''.tsv''" "[]", OF _ ne, of "to_csv df" fs fs1 "[]"] Inr
    have "lookup fs1 (dir @ [k @ ''.tsv'']) = lookup fs (dir @ [k @ ''.tsv''])" by simp
    moreover from Inr Cons.prems kv have "save_tables dir kvs fs1 = (fs', r)"
      by (simp add: attempt_def)
    ultimately show ?thesis using Cons.IH Cons.prems(2) by simp
  qed
qed

lemma save_tables_persisted:
  "save_tables dir kvs fs = (fs', None) \<Longrightarrow> distinct (map fst kvs) \<Longrightarrow> (k, df) \<in> set kvs \<Longrightarrow>
     read_file fs' (dir @ [k @ ''.tsv'']) = Inr (to_csv df)"
proof (induction kvs arbitrary: fs)
  case Nil
  then show ?case by simp
next
  case (Cons kv kvs)
  obtain k' df' where kv: "kv = (k', df')" by (cases kv)
  from Cons.prems(1) kv obtain fs1 where
    w: "write_file (dir @ [k' @ ''.tsv'']) (to_csv df') fs = Inr fs1" and
    rest: "save_tables dir kvs fs1 = (fs', None)"
    by (auto simp: attempt_def split: sum.splits)
  show ?case
  proof (cases "(k, df) \<in> set kvs")
    case True
    with Cons.IH [OF rest] Cons.prems(2) show ?thesis by simp
  next
    case False
    with Cons.prems(3) kv have same: "k = k'" "df = df'" by auto
    with Cons.prems(2) kv have "k \<notin> fst ` set kvs" by auto
    from save_tables_other_key [OF rest this]
    have "lookup fs' (dir @ [k @ ''.tsv'']) = lookup fs1 (dir @ [k @ ''.tsv''])" .
    with read_after_write [OF w] same show ?thesis by (simp add: read_file_def)
  qed
qed

lemma dict_set_keys: "set (map fst (dict_set kvs k v)) = insert k (set (map fst kvs))"
proof (induction kvs)
  case Nil
  show ?case by simp
next
  case (Cons a kvs)
  obtain k' v' where a: "a = (k', v')" by (cases a)
  show ?case
  proof (cases "k' = k")
    case True
    with a show ?thesis by simp
  next
    case False
    with a Cons show ?thesis by (simp add: insert_commute)
  qed
qed

lemma distinct_dict_set: "distinct (map fst kvs) \<Longrightarrow> distinct (map fst (dict_set kvs k v))"
proof (induction kvs)
  case Nil
  then show ?case by simp
next
  case (Cons a kvs)
  obtain k' v' where a: "a = (k', v')" by (cases a)
  show ?case
  proof (cases "k' = k")
    case True
    with Cons.prems a show ?thesis by simp
  next
    case False
    with Cons a dict_set_keys [of kvs k v] show ?thesis by auto
  qed
qed

lemma scan_line_distinct:
  "scan_line st l = Inr st' \<Longrightarrow> distinct (map fst (dfs st)) \<Longrightarrow> distinct (map fst (dfs st'))"
  by (auto simp: scan_line_def distinct_dict_set split: if_splits sum.splits)

lemma scan_lines_distinct:
  "scan_lines st ls = Inr st' \<Longrightarrow> distinct (map fst (dfs st)) \<Longrightarrow> distinct (map fst (dfs st'))"
proof (induction ls arbitrary: st)
  case Nil
  then show ?case by simp
next
  case (Cons l ls)
  then show ?case by (auto split: sum.splits dest: scan_line_distinct)
qed

lemma parse_sections_distinct: "parse_sections s = Inr tables \<Longrightarrow> distinct (map fst tables)"
proof -
  assume a: "parse_sections s = Inr tables"
  then obtain st where st: "scan_lines scan_start (file_lines s) = Inr st" "flush_last st = Inr tables"
    by (auto simp: parse_sections_def scan_start_def split: sum.splits)
  from scan_lines_distinct [OF st(1)] have "distinct (map fst (dfs st))" by (simp add: scan_start_def)
  with st(2) show ?thesis
    by (auto simp: flush_last_def distinct_dict_set split: if_splits sum.splits)
qed

section \<open>The steps of unpacking a member\<close>

lemma unpack_member_steps:
  assumes "unpack_member gunzip main_dir gz_name fs = (fs4, None)"
  obtains fs1 packed fs2 content fs3 where
    "makedirs (extracted_dir main_dir gz_name) fs = Inr fs1"
    "read_file fs1 (main_dir @ [gz_name]) = Inr packed"
    "write_file (text_file main_dir gz_name) [] fs1 = Inr fs2"
    "gunzip packed = Some content"
    "write_file (text_file main_dir gz_name) content fs2 = Inr fs3"
    "unlink (main_dir @ [gz_name]) fs3 = Inr fs4"
  using assms
  by (auto simp: unpack_member_def attempt_def Let_def split: sum.splits option.splits)

section \<open>Directories that exist and directories that are made\<close>

lemma dict_set_same_value: "map_of es x = Some v \<Longrightarrow> dict_set es x v = es"
  by (induction es) (auto split: if_splits)

lemma makedirs_existing: "lookup fs p = Some (Dir es) \<Longrightarrow> makedirs p fs = Inr fs"
proof (induction p fs arbitrary: es rule: makedirs.induct)
  case (1 es)
  then show ?case by simp
next
  case (2 c)
  then show ?case by simp
next
  case (3 x p c)
  then show ?case by simp
next
  case (4 x p es0)
  then obtain ch where ch: "map_of es0 x = Some ch" "lookup ch p = Some (Dir es)"
    by (auto split: option.splits)
  with "4.IH" [of es] have "makedirs p ch = Inr ch" by simp
  with ch show ?case by (simp add: dict_set_same_value)
qed

lemma makedirs_fresh:
  "lookup fs p = None \<Longrightarrow> makedirs p fs = Inr fs' \<Longrightarrow> lookup fs' p = Some (Dir [])"
proof (induction p fs arbitrary: fs' rule: makedirs.induct)
  case (1 es)
  then show ?case by simp
next
  case (2 c)
  then show ?case by simp
next
  case (3 x p c)
  then show ?case by simp
next
  case (4 x p es)
  let ?ch = "case map_of es x of None \<Rightarrow> Dir [] | Some ch \<Rightarrow> ch"
  from "4.prems" obtain ch' where ch': "makedirs p ?ch = Inr ch'" "fs' = Dir (dict_set es x ch')"
    by (auto split: sum.splits)
  show ?case
  proof (cases "lookup ?ch p")
    case None
    from "4.IH" [OF None ch'(1)] ch'(2) show ?thesis by (simp add: map_of_dict_set_same)
  next
    case (Some t)
    with "4.prems"(1) have nf: "map_of es x = None" by (auto split: option.splits)
    with Some have "p = []" by (cases p) auto
    with nf ch' show ?thesis by (simp add: map_of_dict_set_same)
  qed
qed

lemma lookup_below_is_dir: "lookup n (x # q) = Some t \<Longrightarrow> \<exists>es. n = Dir es"
  by (cases n) auto

lemma makedirs_not_file: "lookup fs p = Some (File c) \<Longrightarrow> makedirs p fs = Inr fs' \<Longrightarrow> False"
proof -
  assume a: "lookup fs p = Some (File c)" and b: "makedirs p fs = Inr fs'"
  from makedirs_files [OF b, of p c] a have "lookup fs' p = Some (File c)" by simp
  with makedirs_is_dir [OF b] show False by auto
qed

section \<open>Header names that are kept\<close>





section \<open>The tokenizer on written rows\<close>














section \<open>Values written and read\<close>





























section \<open>The prune loop on files it can handle\<close>

lemma write_file_keeps_files:
  "write_file q c fs = Inr fs' \<Longrightarrow> lookup fs r = Some (File t) \<Longrightarrow> r \<noteq> q \<Longrightarrow>
     lookup fs' r = Some (File t)"
proof (induction q arbitrary: fs fs' r)
  case Nil
  then show ?case by (cases r) (auto simp: write_file_def split: node.splits)
next
  case (Cons x q)
  then obtain es where fs: "fs = Dir es" by (cases fs) (auto simp: write_file_def)
  from Cons.prems(2) fs obtain y r' where r: "r = y # r'" by (cases r) auto
  show ?case
  proof (cases q)
    case Nil
    with Cons.prems(1) fs have ok: "\<forall>d. map_of es x \<noteq> Some (Dir d)"
      and fs': "fs' = Dir (dict_set es x (File c))"
      by (auto simp: write_file_def split: option.splits node.splits)
    show ?thesis
    proof (cases "y = x")
      case False
      with Cons.prems(2) fs fs' r show ?thesis by (simp add: map_of_dict_set_other)
    next
      case True
      with Cons.prems(3) Nil r have "r' \<noteq> []" by auto
      then obtain z r'' where "r' = z # r''" by (cases r') auto
      with Cons.prems(2) fs r True ok show ?thesis
        by (auto split: option.splits dest: lookup_below_is_dir)
    qed
  next
    case (Cons z q')
    with Cons.prems(1) fs obtain ch ch' where
      ch: "map_of es x = Some ch" "write_file q c ch = Inr ch'" "fs' = Dir (dict_set es x ch')"
      by (auto simp: write_file_def split: option.splits sum.splits)
    show ?thesis
    proof (cases "y = x")
      case False
      with Cons.prems(2) fs ch r show ?thesis by (simp add: map_of_dict_set_other)
    next
      case True
      with Cons.prems(2,3) fs ch r have "lookup ch r' = Some (File t)" "r' \<noteq> q" by auto
      from Cons.IH [OF ch(2) this] ch True r show ?thesis by (simp add: map_of_dict_set_same)
    qed
  qed
qed

lemma write_file_no_new_dirs:
  "write_file q c fs = Inr fs' \<Longrightarrow> lookup fs' r = Some (Dir es') \<Longrightarrow> \<exists>es. lookup fs r = Some (Dir es)"
proof (induction q arbitrary: fs fs' r es')
  case Nil
  then show ?case by (cases r) (auto simp: write_file_def split: node.splits option.splits)
next
  case (Cons x q)
  then obtain es where fs: "fs = Dir es" by (cases fs) (auto simp: write_file_def)
  show ?case
  proof (cases r)
    case Nil
    with fs show ?thesis by simp
  next
    case r: (Cons y r')
    show ?thesis
    proof (cases q)
      case Nil
      with Cons.prems(1) fs have fs': "fs' = Dir (dict_set es x (File c))"
        by (auto simp: write_file_def split: option.splits node.splits)
      show ?thesis
      proof (cases "y = x")
        case False
        with Cons.prems(2) fs fs' r show ?thesis by (simp add: map_of_dict_set_other)
      next
        case True
        with Cons.prems(2) fs' r show ?thesis
          by (cases r') (auto simp: map_of_dict_set_same)
      qed
    next
      case (Cons z q')
      with Cons.prems(1) fs obtain ch ch' where
        ch: "map_of es x = Some ch" "write_file q c ch = Inr ch'" "fs' = Dir (dict_set es x ch')"
        by (auto simp: write_file_def split: option.splits sum.splits)
      show ?thesis
      proof (cases "y = x")
        case False
        with Cons.prems(2) fs ch r show ?thesis by (simp add: map_of_dict_set_other)
      next
        case True
        with Cons.prems(2) ch r have "lookup ch' r' = Some (Dir es')"
          by (simp add: map_of_dict_set_same)
        from Cons.IH [OF ch(2) this] ch True r fs show ?thesis by simp
      qed
    qed
  qed
qed

lemma write_file_succeeds:
  "q \<noteq> [] \<Longrightarrow> lookup fs (butlast q) = Some (Dir es) \<Longrightarrow> \<forall>d. lookup fs q \<noteq> Some (Dir d) \<Longrightarrow>
     \<exists>fs'. write_file q c fs = Inr fs'"
proof (induction q arbitrary: fs)
  case Nil
  then show ?case by simp
next
  case (Cons x q)
  show ?case
  proof (cases q)
    case Nil
    with Cons.prems show ?thesis
      by (auto simp: write_file_def split: option.splits node.splits)
  next
    case q: (Cons z q')
    with Cons.prems(2) obtain es0 where fs: "fs = Dir es0" by (auto dest: lookup_below_is_dir)
    with Cons.prems(2) q obtain ch where ch: "map_of es0 x = Some ch" "lookup ch (butlast q) = Some (Dir es)"
      by (auto split: option.splits)
    from Cons.prems(3) fs ch have "\<forall>d. lookup ch q \<noteq> Some (Dir d)" by auto
    from Cons.IH [OF _ ch(2) this] q obtain ch' where "write_file q c ch = Inr ch'" by auto
    with fs ch q show ?thesis by (auto simp: write_file_def)
  qed
qed

lemma parent_is_dir:
  "lookup fs p = Some t \<Longrightarrow> p \<noteq> [] \<Longrightarrow> \<exists>es. lookup fs (butlast p) = Some (Dir es)"
proof -
  assume a: "lookup fs p = Some t" and ne: "p \<noteq> []"
  then have "lookup fs (butlast p @ [last p]) = Some t" by simp
  then obtain n where n: "lookup fs (butlast p) = Some n" "lookup n [last p] = Some t"
    by (auto simp: lookup_append split: option.splits)
  from n(2) obtain es where "n = Dir es" by (auto dest: lookup_below_is_dir)
  with n(1) show ?thesis by simp
qed


lemma trimmed_last: "last p = ''Probes.tsv'' \<Longrightarrow> trimmed_file_path p = butlast p @ [''Probes_trimmed.tsv'']"
  by (simp add: trimmed_file_path_def stem_Probes)

lemma trim_one_ok:
  assumes "p \<noteq> []" and "last p = ''Probes.tsv''" and "trimmable fs p"
  shows "\<exists>body df fs'.
           read_file fs p = Inr body \<and> read_csv body Infer = Inr df
         \<and> write_file (trimmed_file_path p) (to_csv (drop_columns columns_to_remove df)) fs = Inr fs'
         \<and> trim_one p fs = (fs', None)"
proof -
  from assms(3) obtain body where rd: "read_file fs p = Inr body" and ok: "\<not> isl (read_csv body Infer)"
    by (auto simp: trimmable_def split: sum.splits)
  from ok obtain df where df: "read_csv body Infer = Inr df" by (cases "read_csv body Infer") auto
  from rd have "lookup fs p = Some (File body)"
    by (auto simp: read_file_def split: option.splits node.splits)
  from parent_is_dir [OF this assms(1)] obtain es where par: "lookup fs (butlast p) = Some (Dir es)"
    by blast
  let ?q = "trimmed_file_path p"
  have q: "?q = butlast p @ [''Probes_trimmed.tsv'']" using assms(2) by (rule trimmed_last)
  then have "?q \<noteq> []" "lookup fs (butlast ?q) = Some (Dir es)" using par by simp_all
  moreover from assms(3) have "\<forall>d. lookup fs ?q \<noteq> Some (Dir d)"
    by (auto simp: trimmable_def split: option.splits node.splits)
  ultimately obtain fs' where
    w: "write_file ?q (to_csv (drop_columns columns_to_remove df)) fs = Inr fs'"
    using write_file_succeeds by blast
  with rd df have "trim_one p fs = (fs', None)" by (simp add: trim_one_def attempt_def)
  with rd df w show ?thesis by blast
qed

lemma trimmable_after_write:
  assumes "write_file (butlast p @ [''Probes_trimmed.tsv'']) c fs = Inr fs'"
    and "p' \<noteq> []" and "last p' = ''Probes.tsv''" and "trimmable fs p'"
  shows "trimmable fs' p'"
proof -
  from assms(4) obtain body where rd: "read_file fs p' = Inr body" and ok: "\<not> isl (read_csv body Infer)"
    by (auto simp: trimmable_def split: sum.splits)
  from rd have l: "lookup fs p' = Some (File body)"
    by (auto simp: read_file_def split: option.splits node.splits)
  have "p' \<noteq> butlast p @ [''Probes_trimmed.tsv'']" using assms(3) by auto
  from write_file_keeps_files [OF assms(1) l this] have "read_file fs' p' = Inr body"
    by (simp add: read_file_def)
  moreover have "\<forall>d. lookup fs' (trimmed_file_path p') \<noteq> Some (Dir d)"
  proof (intro allI notI)
    fix d
    assume "lookup fs' (trimmed_file_path p') = Some (Dir d)"
    from write_file_no_new_dirs [OF assms(1) this] assms(4) show False
      by (auto simp: trimmable_def split: option.splits node.splits)
  qed
  ultimately show ?thesis using ok
    by (auto simp: trimmable_def split: option.splits node.splits)
qed

lemma for_each_trim_one_ok:
  "list_all (\<lambda>p. p \<noteq> [] \<and> last p = ''Probes.tsv'' \<and> trimmable fs p) ps \<Longrightarrow>
     snd (for_each trim_one ps fs) = None"
proof (induction ps arbitrary: fs)
  case Nil
  show ?case by simp
next
  case (Cons p ps)
  then have p: "p \<noteq> []" "last p = ''Probes.tsv''" "trimmable fs p" by simp_all
  from trim_one_ok [OF p] obtain c fs' where
    w: "write_file (trimmed_file_path p) c fs = Inr fs'" and t: "trim_one p fs = (fs', None)"
    by blast
  from w p(2) have w': "write_file (butlast p @ [''Probes_trimmed.tsv'']) c fs = Inr fs'"
    by (simp add: trimmed_last)
  have "list_all (\<lambda>p. p \<noteq> [] \<and> last p = ''Probes.tsv'' \<and> trimmable fs' p) ps"
    using Cons.prems trimmable_after_write [OF w'] by (auto simp: list_all_iff)
  from Cons.IH [OF this] t show ?case by simp
qed

section \<open>The claims\<close>

text \<open>
  C1. The last open section is meant to be flushed like an intermediate one, a section
  named \<open>Heading\<close> without header row. The flush after the loop (line 115) calls \<open>read_csv\<close>
  without the \<open>header\<close> argument that line 103 computes: for the stream
  \<open>"[Heading]\\nx\\ny\\n"\<close> the code yields a table with the column name \<open>x\<close> and the single
  row \<open>y\<close>, whereas the same section followed by another one yields the positional
  column \<open>0\<close> and the two rows \<open>x\<close> and \<open>y\<close>.
\<close>

theorem last_heading_section_takes_header:
  "parse_sections (''[Heading]'' @ [nl] @ ''x'' @ [nl] @ ''y'' @ [nl])
     = Inr [(''Heading'', \<lparr>columns = [Name ''x''], rows = [[''y'']]\<rparr>)]
   \<and> parse_sections (''[Heading]'' @ [nl] @ ''x'' @ [nl] @ ''y'' @ [nl] @ ''[B]'' @ [nl] @ ''b'' @ [nl])
     = Inr [(''Heading'', \<lparr>columns = [Pos 0], rows = [[''x''], [''y'']]\<rparr>),
            (''B'', \<lparr>columns = [Name ''b''], rows = []\<rparr>)]"
  by code_simp

text \<open>
  C4. Completion of the split stage is meant to survive the later stages. The sweep
  unlinks every \<open>*.txt\<close> below the dataset directory, and the marker
  \<open>processed_done.txt\<close> is one of them: on the small dataset the split stage is complete
  after its own run and after the prune stage, and no longer after the sweep, which
  completes there under either interpreter.
\<close>

theorem sweep_deletes_split_marker:
  "extract_complete demo_main demo_split
   \<and> extract_complete demo_main demo_trimmed
   \<and> map_prod (extract_complete demo_main) id (cleanup_run False demo_main demo_trimmed)
       = (False, None)
   \<and> map_prod (extract_complete demo_main) id (cleanup_run True demo_main demo_trimmed)
       = (False, None)"
  by code_simp

text \<open>
  C3. After the sweep no directory below the dataset directory is meant to be empty: the
  loop at lines 199 to 202 is there to remove the empty directories. It visits every
  directory once, parents first. With the only text file under \<open>a/b\<close>, the file is
  unlinked, \<open>a\<close> is visited while it still holds \<open>b\<close>, and \<open>b\<close> is removed: \<open>a\<close> is left
  without entries. From Python 3.12 on the run then completes and writes its marker;
  before 3.12 the generator raises \<open>FileNotFoundError\<close> when it comes to list the removed
  \<open>b\<close>, and the run ends there, without marker.
\<close>

theorem sweep_leaves_empty_directory:
  "map_prod (\<lambda>fs'. (lookup fs' [''data'', ''DS'', ''a''],
                        lookup fs' [''data'', ''DS'', ''a'', ''b''],
                        path_exists fs' [''data'', ''DS'', ''cleanup_done.txt''])) id
     (cleanup_run False [''data'', ''DS''] nested_fs) = ((Some (Dir []), None, True), None)
   \<and> map_prod (\<lambda>fs'. (lookup fs' [''data'', ''DS'', ''a''],
                          lookup fs' [''data'', ''DS'', ''a'', ''b''],
                          path_exists fs' [''data'', ''DS'', ''cleanup_done.txt''])) id
       (cleanup_run True [''data'', ''DS''] nested_fs)
       = ((Some (Dir []), None, False), Some FileNotFoundError)"
  by code_simp

text \<open>
  C10. The declared output of the prune stage is computed from the file system when it is
  asked for: on a well-formed tree it holds exactly one target \<open>Probes_trimmed.tsv\<close> for
  every \<open>Probes.tsv\<close> that exists at any depth below the dataset directory, each once, as
  its sibling; where no \<open>Probes.tsv\<close> exists (also where the dataset directory does not
  exist yet) the list is empty.
\<close>

theorem trim_output_follows_filesystem:
  assumes "wf_node fs"
  shows "set (trim_output main_dir fs)
           = {main_dir @ d @ [''Probes_trimmed.tsv''] | d.
                path_exists fs (main_dir @ d @ [''Probes.tsv''])}
         \<and> distinct (trim_output main_dir fs)
         \<and> ((\<forall>d. \<not> path_exists fs (main_dir @ d @ [''Probes.tsv'']))
              \<longrightarrow> trim_output main_dir fs = [])"
proof -
  let ?found = "probes_files main_dir fs"
  have found: "set ?found = {main_dir @ d @ [''Probes.tsv''] | d.
                 path_exists fs (main_dir @ d @ [''Probes.tsv''])}" (is "_ = ?F")
  proof (rule set_eqI)
    fix p
    show "p \<in> set ?found \<longleftrightarrow> p \<in> ?F"
    proof
      assume "p \<in> set ?found"
      then obtain q where q: "p = main_dir @ q" "q \<noteq> []" "last q = ''Probes.tsv''" "path_exists fs p"
        using rglob_iff [OF assms] by (auto simp: probes_files_def)
      then have "q = butlast q @ [''Probes.tsv'']" by (metis append_butlast_last_id)
      with q show "p \<in> ?F" by auto
    next
      assume "p \<in> ?F"
      then obtain d where "p = main_dir @ (d @ [''Probes.tsv''])" "path_exists fs p" by auto
      then show "p \<in> set ?found"
        unfolding probes_files_def rglob_iff [OF assms] by (intro exI [of _ "d @ [''Probes.tsv'']"]) simp
    qed
  qed
  have trimmed: "trimmed_file_path (main_dir @ d @ [''Probes.tsv'']) = main_dir @ d @ [''Probes_trimmed.tsv'']" for d
    by (simp add: trimmed_file_path_def stem_Probes butlast_append)
  have s: "set (trim_output main_dir fs) = {main_dir @ d @ [''Probes_trimmed.tsv''] | d.
                path_exists fs (main_dir @ d @ [''Probes.tsv''])}"
    unfolding trim_output_def set_map found
  proof (intro set_eqI iffI)
    fix t
    assume "t \<in> trimmed_file_path ` ?F"
    then show "t \<in> {main_dir @ d @ [''Probes_trimmed.tsv''] | d.
                path_exists fs (main_dir @ d @ [''Probes.tsv''])}"
      using trimmed by auto
  next
    fix t
    assume "t \<in> {main_dir @ d @ [''Probes_trimmed.tsv''] | d.
                path_exists fs (main_dir @ d @ [''Probes.tsv''])}"
    then obtain d where d: "t = main_dir @ d @ [''Probes_trimmed.tsv'']"
      "path_exists fs (main_dir @ d @ [''Probes.tsv''])" by auto
    then have "main_dir @ d @ [''Probes.tsv''] \<in> ?F" by blast
    then have "trimmed_file_path (main_dir @ d @ [''Probes.tsv'']) \<in> trimmed_file_path ` ?F"
      by (rule imageI)
    with d(1) show "t \<in> trimmed_file_path ` ?F" by (simp add: trimmed)
  qed
  have "distinct ?found"
  proof (cases "lookup fs main_dir")
    case None
    then show ?thesis by (simp add: probes_files_def rglob_def)
  next
    case (Some n)
    with assms have "wf_node n" by (rule wf_lookup)
    with Some show ?thesis by (simp add: probes_files_def rglob_def rglob_distinct(1))
  qed
  moreover have "inj_on trimmed_file_path (set ?found)"
    unfolding found by (rule inj_onI) (auto simp: trimmed)
  ultimately have d: "distinct (trim_output main_dir fs)"
    by (simp add: trim_output_def distinct_map)
  have "trim_output main_dir fs = []" if "\<forall>d. \<not> path_exists fs (main_dir @ d @ [''Probes.tsv''])"
    using s that by (cases "trim_output main_dir fs") auto
  with s d show ?thesis by blast
qed

theorem trim_output_follows_filesystem_witness:
  "wf_node demo_start \<and> trim_output demo_main demo_start = []
   \<and> wf_node demo_split
   \<and> set (trim_output demo_main demo_split)
       = {demo_main @ d @ [''Probes_trimmed.tsv''] | d.
            path_exists demo_split (demo_main @ d @ [''Probes.tsv''])}
   \<and> trim_output demo_main demo_split = [[''data'', ''DS'', ''m'', ''Probes_trimmed.tsv'']]"
proof -
  have w1: "wf_node demo_start" by code_simp
  have w2: "wf_node demo_split" by code_simp
  have e1: "trim_output demo_main demo_start = []" by code_simp
  have e2: "trim_output demo_main demo_split = [[''data'', ''DS'', ''m'', ''Probes_trimmed.tsv'']]"
    by code_simp
  from trim_output_follows_filesystem [OF w2, of demo_main] w1 w2 e1 e2 show ?thesis by blast
qed


text \<open>
  C7. The claim has the prune stage raise a fatal error only when no \<open>Probes.tsv\<close> is
  found, and write nothing when it raises. The loop body raises too: with two files
  found, handled in listing order, and the second one empty, \<open>read_csv\<close> raises
  \<open>EmptyDataError\<close> after the trimmed file of the first one is written.
\<close>

theorem probes_found_and_run_raises:
  "probes_files demo_main two_probes_fs
     = [[''data'', ''DS'', ''m1'', ''Probes.tsv''], [''data'', ''DS'', ''m2'', ''Probes.tsv'']]
   \<and> snd (trim_run demo_main two_probes_fs) = Some EmptyDataError
   \<and> read_file (fst (trim_run demo_main two_probes_fs)) [''data'', ''DS'', ''m1'', ''Probes_trimmed.tsv'']
       = Inr (''Probe_Id'' @ [nl] @ ''p1'' @ [nl])
   \<and> read_file two_probes_fs [''data'', ''DS'', ''m1'', ''Probes_trimmed.tsv'']
       = Inl FileNotFoundError"
  by code_simp

text \<open>
  C7, as amended. The stage raises its own error, the \<open>FileNotFoundError\<close> of line 144
  whose message names the expected files and the directory searched, if and only if the
  recursive search finds no \<open>Probes.tsv\<close>; it is raised before anything is read or
  written, so the file system is left as it was. When every file found is a file that
  \<open>read_csv\<close> accepts and no trimmed target is a directory, the run raises nothing else:
  it raises if and only if no file is found.
\<close>

theorem trim_run_fails_iff_no_probes:
  "(probes_files main_dir fs = [] \<longrightarrow>
      trim_run main_dir fs = (fs, Some (ProbesFilesNotFound main_dir)))
   \<and> ((\<exists>d. snd (trim_run main_dir fs) = Some (ProbesFilesNotFound d))
        \<longleftrightarrow> probes_files main_dir fs = [])
   \<and> (list_all (trimmable fs) (probes_files main_dir fs) \<longrightarrow>
        (snd (trim_run main_dir fs) \<noteq> None \<longleftrightarrow> probes_files main_dir fs = []))"
proof -
  let ?found = "probes_files main_dir fs"
  have "snd (trim_run main_dir fs) \<noteq> Some (ProbesFilesNotFound d)" if "?found \<noteq> []" for d
  proof
    assume a: "snd (trim_run main_dir fs) = Some (ProbesFilesNotFound d)"
    from that a have "snd (for_each trim_one ?found fs) = Some (ProbesFilesNotFound d)"
      by (simp add: trim_run_def Let_def)
    then have "for_each trim_one ?found fs
                 = (fst (for_each trim_one ?found fs), Some (ProbesFilesNotFound d))"
      by (metis prod.collapse)
    then show False by (auto dest: for_each_trim_one_error)
  qed
  then have A: "(\<exists>d. snd (trim_run main_dir fs) = Some (ProbesFilesNotFound d)) \<longleftrightarrow> ?found = []"
    by (auto simp: trim_run_def Let_def)
  have B: "?found = [] \<longrightarrow> trim_run main_dir fs = (fs, Some (ProbesFilesNotFound main_dir))"
    by (simp add: trim_run_def)
  have C: "snd (trim_run main_dir fs) \<noteq> None \<longleftrightarrow> ?found = []"
    if ok: "list_all (trimmable fs) ?found"
  proof (cases "?found = []")
    case True
    then show ?thesis by (simp add: trim_run_def)
  next
    case False
    have "list_all (\<lambda>p. p \<noteq> [] \<and> last p = ''Probes.tsv'' \<and> trimmable fs p) ?found"
      using ok rglob_last [of _ "\<lambda>n. n = ''Probes.tsv''" main_dir fs]
      by (auto simp: list_all_iff probes_files_def)
    from for_each_trim_one_ok [OF this] False show ?thesis by (simp add: trim_run_def Let_def)
  qed
  from A B C show ?thesis by blast
qed

theorem trim_run_fails_iff_no_probes_witness:
  "probes_files demo_main demo_start = []
   \<and> trim_run demo_main demo_start = (demo_start, Some (ProbesFilesNotFound demo_main))
   \<and> probes_files demo_main demo_split \<noteq> []
   \<and> list_all (trimmable demo_split) (probes_files demo_main demo_split)
   \<and> snd (trim_run demo_main demo_split) = None"
proof -
  have a: "probes_files demo_main demo_start = []" by code_simp
  have b: "probes_files demo_main demo_split \<noteq> []" by code_simp
  have c: "list_all (trimmable demo_split) (probes_files demo_main demo_split)" by code_simp
  from trim_run_fails_iff_no_probes [of demo_main demo_start] a
  have 1: "trim_run demo_main demo_start = (demo_start, Some (ProbesFilesNotFound demo_main))"
    by blast
  from trim_run_fails_iff_no_probes [of demo_main demo_split] b c
  have 2: "snd (trim_run demo_main demo_split) = None" by blast
  from a 1 b c 2 show ?thesis by (intro conjI)
qed


text \<open>
  C8. For every \<open>Probes.tsv\<close> the prune stage handles without error: the table it read
  loses exactly the columns named in the fixed drop list (a listed name that is absent
  changes nothing), the other columns stay in their order, the number of rows is the same
  and every remaining cell has the value it had; the result is what the sibling file
  \<open>Probes_trimmed.tsv\<close> holds afterwards. A table with the columns \<open>Probe_Id\<close>,
  \<open>Definition\<close>, \<open>Probe_Sequence\<close> and one row keeps the column \<open>Probe_Id\<close> and its value.
\<close>

theorem prune_drops_listed_columns:
  assumes "p \<in> set (probes_files main_dir fs)" and "trim_one p fs = (fs', None)"
  shows "(\<exists>body df t.
            read_file fs p = Inr body \<and> read_csv body Infer = Inr df
          \<and> t = drop_columns columns_to_remove df
          \<and> columns t = filter (\<lambda>l. l \<notin> Name ` set columns_to_remove) (columns df)
          \<and> length (rows t) = length (rows df)
          \<and> (\<forall>i l. i < length (rows df) \<and> l \<notin> Name ` set columns_to_remove
                 \<longrightarrow> cell t i l = cell df i l)
          \<and> trimmed_file_path p = butlast p @ [''Probes_trimmed.tsv'']
          \<and> read_file fs' (trimmed_file_path p) = Inr (to_csv t))
       \<and> drop_columns columns_to_remove
            \<lparr>columns = [Name ''Probe_Id'', Name ''Definition'', Name ''Probe_Sequence''],
             rows = [[a, b, c]]\<rparr>
           = \<lparr>columns = [Name ''Probe_Id''], rows = [[a]]\<rparr>"
proof -
  from assms(2) obtain body df where
    rd: "read_file fs p = Inr body" and df: "read_csv body Infer = Inr df" and
    w: "write_file (trimmed_file_path p) (to_csv (drop_columns columns_to_remove df)) fs = Inr fs'"
    by (auto simp: trim_one_def attempt_def split: sum.splits)
  let ?t = "drop_columns columns_to_remove df"
  have c: "columns ?t = filter (\<lambda>l. l \<notin> Name ` set columns_to_remove) (columns df)"
    by (simp add: drop_columns_def kept_iff [abs_def])
  have n: "length (rows ?t) = length (rows df)" by (simp add: drop_columns_def)
  have v: "cell ?t i l = cell df i l"
    if "i < length (rows df)" "l \<notin> Name ` set columns_to_remove" for i l
  proof -
    from that(1) have "rows df ! i \<in> set (rows df)" by simp
    with df have "length (rows df ! i) = length (columns df)" by (rule read_csv_rectangular)
    with that show ?thesis by (simp add: drop_columns_cell kept_iff)
  qed
  from assms(1) have "last p = ''Probes.tsv''"
    by (auto simp: probes_files_def dest: rglob_last)
  then have tp: "trimmed_file_path p = butlast p @ [''Probes_trimmed.tsv'']"
    by (simp add: trimmed_file_path_def stem_Probes)
  from w have r: "read_file fs' (trimmed_file_path p) = Inr (to_csv ?t)" by (rule read_after_write)
  have ex: "drop_columns columns_to_remove
            \<lparr>columns = [Name ''Probe_Id'', Name ''Definition'', Name ''Probe_Sequence''],
             rows = [[a, b, c]]\<rparr>
           = \<lparr>columns = [Name ''Probe_Id''], rows = [[a]]\<rparr>"
    by (simp add: drop_columns_def kept_def columns_to_remove_def)
  have "\<exists>body df t.
            read_file fs p = Inr body \<and> read_csv body Infer = Inr df
          \<and> t = drop_columns columns_to_remove df
          \<and> columns t = filter (\<lambda>l. l \<notin> Name ` set columns_to_remove) (columns df)
          \<and> length (rows t) = length (rows df)
          \<and> (\<forall>i l. i < length (rows df) \<and> l \<notin> Name ` set columns_to_remove
                 \<longrightarrow> cell t i l = cell df i l)
          \<and> trimmed_file_path p = butlast p @ [''Probes_trimmed.tsv'']
          \<and> read_file fs' (trimmed_file_path p) = Inr (to_csv t)"
  proof (intro exI conjI allI impI)
    show "read_file fs p = Inr body" by (rule rd)
    show "read_csv body Infer = Inr df" by (rule df)
    show "?t = drop_columns columns_to_remove df" by (rule refl)
    show "columns ?t = filter (\<lambda>l. l \<notin> Name ` set columns_to_remove) (columns df)" by (rule c)
    show "length (rows ?t) = length (rows df)" by (rule n)
    show "cell ?t i l = cell df i l"
      if "i < length (rows df) \<and> l \<notin> Name ` set columns_to_remove" for i l
      using that v by blast
    show "trimmed_file_path p = butlast p @ [''Probes_trimmed.tsv'']" by (rule tp)
    show "read_file fs' (trimmed_file_path p) = Inr (to_csv ?t)" by (rule r)
  qed
  then show ?thesis using ex by (rule conjI)
qed

theorem prune_drops_listed_columns_witness:
  "[''data'', ''DS'', ''m'', ''Probes.tsv''] \<in> set (probes_files demo_main demo_split)
   \<and> trim_one [''data'', ''DS'', ''m'', ''Probes.tsv''] demo_split = (demo_trimmed, None)
   \<and> read_file demo_split [''data'', ''DS'', ''m'', ''Probes.tsv'']
       = Inr (''Probe_Id'' @ [tab] @ ''Definition'' @ [nl] @ ''p1'' @ [tab] @ ''d1'' @ [nl])
   \<and> read_file demo_trimmed [''data'', ''DS'', ''m'', ''Probes_trimmed.tsv'']
       = Inr (''Probe_Id'' @ [nl] @ ''p1'' @ [nl])
   \<and> (\<exists>df t. t = drop_columns columns_to_remove df
         \<and> read_file demo_trimmed (trimmed_file_path [''data'', ''DS'', ''m'', ''Probes.tsv''])
             = Inr (to_csv t))"
proof -
  have a: "[''data'', ''DS'', ''m'', ''Probes.tsv''] \<in> set (probes_files demo_main demo_split)"
    by code_simp
  have b: "trim_one [''data'', ''DS'', ''m'', ''Probes.tsv''] demo_split = (demo_trimmed, None)"
    by code_simp
  have c: "read_file demo_split [''data'', ''DS'', ''m'', ''Probes.tsv'']
       = Inr (''Probe_Id'' @ [tab] @ ''Definition'' @ [nl] @ ''p1'' @ [tab] @ ''d1'' @ [nl])"
    by code_simp
  have d: "read_file demo_trimmed [''data'', ''DS'', ''m'', ''Probes_trimmed.tsv'']
       = Inr (''Probe_Id'' @ [nl] @ ''p1'' @ [nl])"
    by code_simp
  from prune_drops_listed_columns [OF a b, THEN conjunct1] have
    "\<exists>df t. t = drop_columns columns_to_remove df
         \<and> read_file demo_trimmed (trimmed_file_path [''data'', ''DS'', ''m'', ''Probes.tsv''])
             = Inr (to_csv t)"
    by blast
  with a b c d show ?thesis by (intro conjI)
qed


text \<open>
  C5. The claim has a table with positional columns written without header row. \<open>to_csv\<close>
  is called without \<open>header=False\<close>, so the table read from a \<open>Heading\<close> section with the
  rows \<open>x\<close> and \<open>y\<close> is written as the three lines \<open>0\<close>, \<open>x\<close>, \<open>y\<close>.
\<close>

theorem positional_table_written_with_header:
  "read_csv (''x'' @ [nl] @ ''y'' @ [nl]) NoHeader = Inr \<lparr>columns = [Pos 0], rows = [[''x''], [''y'']]\<rparr>
   \<and> to_csv \<lparr>columns = [Pos 0], rows = [[''x''], [''y'']]\<rparr> = ''0'' @ [nl] @ ''x'' @ [nl] @ ''y'' @ [nl]
   \<and> to_csv \<lparr>columns = [Pos 0], rows = [[''x''], [''y'']]\<rparr> \<noteq> ''x'' @ [nl] @ ''y'' @ [nl]"
  by code_simp


text \<open>
  C5, as amended. The first line written is always a row of column labels: the names of a
  table with named columns, the positions \<open>0, 1, ...\<close> of a table read without header. One
  line per data row follows, and where no field needs quoting every line is its fields
  joined by tabs.
\<close>

theorem to_csv_always_writes_label_row:
  assumes "list_all plain_row (map label_text (columns df) # rows df)"
  shows "file_lines (to_csv df)
           = (join tab (map label_text (columns df)) @ [nl]) # map (\<lambda>r. join tab r @ [nl]) (rows df)"
proof -
  let ?rs = "map label_text (columns df) # rows df"
  have "map writerow ?rs = map (\<lambda>l. l @ [nl]) (map (join tab) ?rs)"
    using assms by (auto simp: list_all_iff plain_row_writerow simp del: list.map)
  then have "to_csv df = concat (map (\<lambda>l. l @ [nl]) (map (join tab) ?rs))"
    by (simp only: to_csv_def)
  moreover have "list_all (\<lambda>l. nl \<notin> set l) (map (join tab) ?rs)"
    using assms by (auto simp: list_all_iff plain_row_no_nl simp del: list.map)
  ultimately have "file_lines (to_csv df) = map (\<lambda>l. l @ [nl]) (map (join tab) ?rs)"
    by (simp only: file_lines_concat)
  then show ?thesis by (simp add: comp_def)
qed

theorem to_csv_always_writes_label_row_witness:
  "list_all plain_row (map label_text [Pos 0] # [[''x''], [''y'']])
   \<and> file_lines (to_csv \<lparr>columns = [Pos 0], rows = [[''x''], [''y'']]\<rparr>)
       = [''0'' @ [nl], ''x'' @ [nl], ''y'' @ [nl]]"
proof -
  have h: "list_all plain_row (map label_text (columns \<lparr>columns = [Pos 0], rows = [[''x''], [''y'']]\<rparr>)
             # rows \<lparr>columns = [Pos 0], rows = [[''x''], [''y'']]\<rparr>)"
    by code_simp
  have s: "str_nat 0 = ''0''" by code_simp
  from to_csv_always_writes_label_row [OF h] h s show ?thesis by simp
qed


text \<open>
  C2. The claim has a section with an empty body yield a table without rows and without
  columns. \<open>read_csv\<close> raises \<open>EmptyDataError\<close> on an empty buffer, and nothing in
  \<open>process_text_file\<close> catches it: a stream with an empty section, intermediate or last,
  named \<open>Heading\<close> or not, yields no tables at all.
\<close>

theorem empty_section_is_an_error:
  "parse_sections (''[A]'' @ [nl] @ ''[B]'' @ [nl] @ ''h'' @ [nl]) = Inl EmptyDataError
   \<and> parse_sections (''[A]'' @ [nl] @ ''h'' @ [nl] @ ''[B]'' @ [nl]) = Inl EmptyDataError
   \<and> parse_sections (''[Heading]'' @ [nl] @ ''[B]'' @ [nl] @ ''h'' @ [nl]) = Inl EmptyDataError"
  by code_simp


text \<open>
  C2, as amended. For every stream, a section with a non-empty name and an empty body
  (its header line is followed at once by the next header line or by the end of the
  stream) makes the parser raise instead of returning tables; when the lines up to and
  including that header line are scanned without error, the exception is the
  \<open>EmptyDataError\<close> of the empty body.
\<close>

theorem empty_section_raises:
  assumes "pre = [] \<or> last pre = nl"
    and "startswith ''['' h" and "nl \<notin> set h"
    and "strip [CHR ''['', CHR '']'', nl] (h @ [nl]) \<noteq> []"
    and "rest = [] \<or> startswith ''['' rest"
  shows "(\<exists>e. parse_sections (pre @ h @ [nl] @ rest) = Inl e)
       \<and> (\<forall>st. scan_lines scan_start (file_lines (pre @ h @ [nl])) = Inr st
             \<longrightarrow> parse_sections (pre @ h @ [nl] @ rest) = Inl EmptyDataError)"
proof -
  let ?head = "pre @ h @ [nl]"
  have hd_nl: "?head = [] \<or> last ?head = nl" by simp
  have lines: "file_lines (?head @ rest) = file_lines ?head @ file_lines rest"
    using hd_nl by (rule file_lines_append)
  have head_lines: "file_lines ?head = file_lines pre @ [h @ [nl]]"
    using file_lines_append [OF assms(1), of "h @ [nl]"] file_lines_single [OF assms(3)] by simp
  have hl: "startswith ''['' (h @ [nl])"
    using assms(2) by (cases h) (auto simp: startswith_def)
  have ps: "parse_sections (?head @ rest) =
      (case scan_lines scan_start (file_lines ?head) of
         Inl e \<Rightarrow> Inl e
       | Inr st' \<Rightarrow> (case scan_lines st' (file_lines rest) of Inl e \<Rightarrow> Inl e | Inr st \<Rightarrow> flush_last st))"
    by (simp only: parse_sections_def scan_start_def [symmetric] lines scan_lines_append)
       (simp split: sum.splits)
  have after: "parse_sections (?head @ rest) = Inl EmptyDataError"
    if st: "scan_lines scan_start (file_lines ?head) = Inr st" for st
  proof -
    from st obtain st0 where "scan_line st0 (h @ [nl]) = Inr st"
      by (auto simp: head_lines scan_lines_append split: sum.splits)
    from scan_line_header [OF hl this] assms(4)
    have open_empty: "truthy (write_key st)" "fio st = []" by auto
    from assms(5) show ?thesis
    proof
      assume "rest = []"
      with st open_empty show ?thesis
        by (subst ps) (simp add: flush_last_on_empty_section file_lines_def)
    next
      assume "startswith ''['' rest"
      then obtain l ls where l: "file_lines rest = l # ls" "startswith ''['' l"
        using file_lines_header_first by blast
      with open_empty have "scan_line st l = Inl EmptyDataError"
        by (simp add: scan_line_on_empty_section)
      with st l show ?thesis
        by (subst ps) simp
    qed
  qed
  have "\<exists>e. parse_sections (?head @ rest) = Inl e"
  proof (cases "scan_lines scan_start (file_lines ?head)")
    case (Inl e)
    then show ?thesis
      by (subst ps) simp
  next
    case (Inr st)
    then show ?thesis using after by blast
  qed
  with after show ?thesis by simp
qed

theorem empty_section_raises_witness:
  "startswith ''['' ''[A]'' \<and> nl \<notin> set ''[A]''
   \<and> strip [CHR ''['', CHR '']'', nl] (''[A]'' @ [nl]) \<noteq> []
   \<and> parse_sections (''[A]'' @ [nl]) = Inl EmptyDataError
   \<and> (\<exists>e. parse_sections (''[A]'' @ [nl] @ ''h'' @ [nl] @ ''[B]'' @ [nl] @ ''[C]'' @ [nl] @ ''k'' @ [nl]) = Inl e)"
proof -
  have a: "startswith ''['' ''[A]''" by code_simp
  have b: "nl \<notin> set ''[A]''" by simp
  have c: "strip [CHR ''['', CHR '']'', nl] (''[A]'' @ [nl]) \<noteq> []" by code_simp
  have a2: "startswith ''['' ''[B]''" by code_simp
  have b2: "nl \<notin> set ''[B]''" by simp
  have c2: "strip [CHR ''['', CHR '']'', nl] (''[B]'' @ [nl]) \<noteq> []" by code_simp
  have p2: "''[A]'' @ [nl] @ ''h'' @ [nl] = [] \<or> last (''[A]'' @ [nl] @ ''h'' @ [nl]) = nl" by simp
  have r2: "''[C]'' @ [nl] @ ''k'' @ [nl] = [] \<or> startswith ''['' (''[C]'' @ [nl] @ ''k'' @ [nl])"
    by code_simp
  have s: "scan_lines scan_start (file_lines ([] @ ''[A]'' @ [nl])) =
             Inr \<lparr>dfs = [], write_key = Some ''A'', fio = []\<rparr>" by code_simp
  from empty_section_raises [of "[]" "''[A]''" "[]", OF _ a b c] s
  have 1: "parse_sections (''[A]'' @ [nl]) = Inl EmptyDataError" by simp
  from empty_section_raises [OF p2 a2 b2 c2 r2]
  have 2: "\<exists>e. parse_sections (''[A]'' @ [nl] @ ''h'' @ [nl] @ ''[B]'' @ [nl] @ ''[C]'' @ [nl] @ ''k'' @ [nl]) = Inl e"
    by simp
  from a b c 1 2 show ?thesis by (intro conjI)
qed


text \<open>
  C9. The claim has the compressed member deleted only after its tables are persisted.
  The loop body unlinks the member (line 80) before it calls \<open>process_text_file\<close>
  (line 84): for a member whose text is \<open>"[A]\\n"\<close> the parser raises, no table is written,
  and the member is gone.
\<close>

theorem member_unlinked_though_nothing_persisted:
  "process_member Some [''d''] ''m.txt.gz'' (Dir [(''d'', Dir [(''m.txt.gz'', File (''[A]'' @ [nl]))])])
     = (Dir [(''d'', Dir [(''m'', Dir [(''m.txt'', File (''[A]'' @ [nl]))])])], Some EmptyDataError)"
  by code_simp


text \<open>
  C9, as amended. For every compressed member whose unpacking (lines 67 to 80) succeeds:
  the member is decompressed into the text file of its subdirectory and then unlinked;
  only after that the text is parsed. The member is absent from then on, whether the
  parser raises or not, and when the whole body succeeds every table of the text is
  persisted as \<open>key.tsv\<close> in that subdirectory.
\<close>

theorem member_is_unlinked_before_it_is_parsed:
  assumes "unpack_member gunzip main_dir gz_name fs = (fs4, None)"
  shows "\<exists>packed content.
           read_file fs (main_dir @ [gz_name]) = Inr packed \<and> gunzip packed = Some content
         \<and> read_file fs4 (text_file main_dir gz_name) = Inr content
         \<and> \<not> path_exists fs4 (main_dir @ [gz_name])
         \<and> process_member gunzip main_dir gz_name fs
             = (case parse_sections content of
                  Inl e \<Rightarrow> (fs4, Some e)
                | Inr tables \<Rightarrow> save_tables (extracted_dir main_dir gz_name) tables fs4)
         \<and> \<not> path_exists (fst (process_member gunzip main_dir gz_name fs)) (main_dir @ [gz_name])
         \<and> (snd (process_member gunzip main_dir gz_name fs) = None \<longrightarrow>
              (\<exists>tables. parse_sections content = Inr tables
                \<and> (\<forall>(key, df) \<in> set tables.
                      read_file (fst (process_member gunzip main_dir gz_name fs))
                        (extracted_dir main_dir gz_name @ [key @ ''.tsv'']) = Inr (to_csv df))))"
proof -
  let ?gz = "main_dir @ [gz_name]"
  let ?dir = "extracted_dir main_dir gz_name"
  let ?d = "stem (stem gz_name)"
  let ?txt = "text_file main_dir gz_name"
  from assms obtain fs1 packed fs2 content fs3 where
    mk: "makedirs ?dir fs = Inr fs1" and
    rd: "read_file fs1 ?gz = Inr packed" and
    w0: "write_file ?txt [] fs1 = Inr fs2" and
    gu: "gunzip packed = Some content" and
    w1: "write_file ?txt content fs2 = Inr fs3" and
    ul: "unlink ?gz fs3 = Inr fs4"
    by (rule unpack_member_steps)
  have dir: "?dir = main_dir @ [?d]" by (simp add: extracted_dir_def)
  have tf: "?txt = main_dir @ ?d # [stem gz_name]" by (simp add: text_file_def extracted_dir_def)
  from rd have f1: "lookup fs1 ?gz = Some (File packed)"
    by (auto simp: read_file_def split: option.splits node.splits)
  have ne: "gz_name \<noteq> ?d"
  proof
    assume "gz_name = ?d"
    with makedirs_is_dir [OF mk] f1 dir show False by simp
  qed
  from f1 makedirs_files [OF mk] have "lookup fs ?gz = Some (File packed)" by simp
  then have r0: "read_file fs ?gz = Inr packed" by (simp add: read_file_def)
  have gone: "lookup fs4 ?gz = None" using ul by (rule unlink_removes)
  have "read_file fs3 ?txt = Inr content" using w1 by (rule read_after_write)
  moreover have "lookup fs4 ?txt = lookup fs3 ?txt"
    using unlink_other [of main_dir gz_name "[]" fs3 fs4 ?d "[stem gz_name]"] ul ne tf by simp
  ultimately have r4: "read_file fs4 ?txt = Inr content" by (simp add: read_file_def)
  have bl: "butlast ?txt = ?dir" by (simp add: text_file_def)
  have pm: "process_member gunzip main_dir gz_name fs
             = (case parse_sections content of
                  Inl e \<Rightarrow> (fs4, Some e)
                | Inr tables \<Rightarrow> save_tables ?dir tables fs4)"
    using assms r4 bl by (simp add: process_member_def process_text_file_def split: sum.splits)
  have still: "lookup (fst (process_member gunzip main_dir gz_name fs)) ?gz = None"
  proof (cases "parse_sections content")
    case (Inl e)
    with pm gone show ?thesis by simp
  next
    case (Inr tables)
    obtain fs' r where sv: "save_tables ?dir tables fs4 = (fs', r)"
      by (cases "save_tables ?dir tables fs4")
    from save_tables_other_dir [of main_dir ?d tables fs4 fs' r gz_name "[]"] sv ne dir
    have "lookup fs' ?gz = lookup fs4 ?gz" by simp
    with Inr pm sv gone show ?thesis by simp
  qed
  have kept: "\<exists>tables. parse_sections content = Inr tables
                \<and> (\<forall>(key, df) \<in> set tables.
                      read_file (fst (process_member gunzip main_dir gz_name fs))
                        (?dir @ [key @ ''.tsv'']) = Inr (to_csv df))"
    if ok: "snd (process_member gunzip main_dir gz_name fs) = None"
  proof (cases "parse_sections content")
    case (Inl e)
    with pm ok show ?thesis by simp
  next
    case (Inr tables)
    with pm ok have sv: "save_tables ?dir tables fs4
                       = (fst (process_member gunzip main_dir gz_name fs), None)"
      by (metis prod.collapse sum.case(2))
    from parse_sections_distinct [OF Inr] have "distinct (map fst tables)" .
    with save_tables_persisted [OF sv] Inr show ?thesis by auto
  qed
  from r0 gu r4 gone pm still kept show ?thesis
    unfolding path_exists_def by (intro exI [of _ packed] exI [of _ content] conjI impI) simp_all
qed


theorem member_is_unlinked_before_it_is_parsed_witness:
  "snd (unpack_member Some demo_main ''m.txt.gz'' demo_extracted) = None
   \<and> path_exists demo_extracted (demo_main @ [''m.txt.gz''])
   \<and> \<not> path_exists (fst (process_member Some demo_main ''m.txt.gz'' demo_extracted))
          (demo_main @ [''m.txt.gz''])
   \<and> read_file (fst (process_member Some demo_main ''m.txt.gz'' demo_extracted))
         [''data'', ''DS'', ''m'', ''Probes.tsv'']
       = Inr (''Probe_Id'' @ [tab] @ ''Definition'' @ [nl] @ ''p1'' @ [tab] @ ''d1'' @ [nl])"
proof -
  have a: "snd (unpack_member Some demo_main ''m.txt.gz'' demo_extracted) = None" by code_simp
  then have b: "unpack_member Some demo_main ''m.txt.gz'' demo_extracted
                  = (fst (unpack_member Some demo_main ''m.txt.gz'' demo_extracted), None)"
    by (metis prod.collapse)
  have c: "path_exists demo_extracted (demo_main @ [''m.txt.gz''])" by code_simp
  have d: "read_file (fst (process_member Some demo_main ''m.txt.gz'' demo_extracted))
         [''data'', ''DS'', ''m'', ''Probes.tsv'']
       = Inr (''Probe_Id'' @ [tab] @ ''Definition'' @ [nl] @ ''p1'' @ [tab] @ ''d1'' @ [nl])"
    by code_simp
  from member_is_unlinked_before_it_is_parsed [OF b]
  have "\<not> path_exists (fst (process_member Some demo_main ''m.txt.gz'' demo_extracted))
          (demo_main @ [''m.txt.gz''])" by blast
  with a c d show ?thesis by (intro conjI)
qed





end
